theory Spec2Isabelle
  imports Complex_Main "HOL-Library.AList"
begin

section \<open>Incremental indexer (src/src/incremental_indexer.py)\<close>

subsection \<open>Files on disk\<close>

type_synonym path = string
type_synonym bytes = "char list"
type_synonym vector = "real list"

text \<open>
  A file on disk: its bytes, its modification time and, when \<open>open(path, 'rb')\<close>
  raises (for instance for lack of permission), the text of the exception.
  \<open>stat\<close> succeeds on every existing file; \<open>st_size\<close> is the number of bytes.
\<close>

record disk_file =
  file_bytes :: bytes
  st_mtime :: real
  open_error :: "string option"

type_synonym filesystem = "path \<rightharpoonup> disk_file"

definition st_size :: "disk_file \<Rightarrow> int" where
  "st_size f = int (length (file_bytes f))"

text \<open>\<open>Path(p).exists()\<close>.\<close>

definition path_exists :: "filesystem \<Rightarrow> path \<Rightarrow> bool" where
  "path_exists fs p = (fs p \<noteq> None)"

text \<open>\<open>Path(p).name\<close>: the part after the last separator.\<close>

definition path_name :: "path \<Rightarrow> string" where
  "path_name p = rev (takeWhile (\<lambda>c. c \<noteq> CHR ''/'') (rev p))"

text \<open>The text of the exception \<open>open\<close> raises on a path that does not exist.\<close>

definition enoent :: string where
  "enoent = ''[Errno 2] No such file or directory''"

subsection \<open>Slices\<close>

text \<open>Python's \<open>xs[:k]\<close>; a negative \<open>k\<close> counts from the end.\<close>

definition slice_to :: "int \<Rightarrow> 'a list \<Rightarrow> 'a list" where
  "slice_to k xs = (if 0 \<le> k then take (nat k) xs else take (length xs - nat (- k)) xs)"

subsection \<open>An open binary file and the hasher\<close>

record handle =
  h_data :: bytes
  h_pos :: nat

definition open_rb :: "filesystem \<Rightarrow> path \<Rightarrow> string + handle" where
  "open_rb fs p =
     (case fs p of
        None \<Rightarrow> Inl enoent
      | Some f \<Rightarrow>
          (case open_error f of
             Some e \<Rightarrow> Inl e
           | None \<Rightarrow> Inr \<lparr>h_data = file_bytes f, h_pos = 0\<rparr>))"

text \<open>
  \<open>f.read()\<close> and \<open>f.read(n)\<close>: \<open>read(-1)\<close> reads to the end of the file, and a length
  below \<open>-1\<close> raises \<open>ValueError\<close> with the text given here.
\<close>

definition f_read_all :: "handle \<Rightarrow> bytes \<times> handle" where
  "f_read_all h = (drop (h_pos h) (h_data h), h\<lparr>h_pos := max (h_pos h) (length (h_data h))\<rparr>)"

definition read_length_error :: string where
  "read_length_error = ''read length must be non-negative or -1''"

definition f_read :: "handle \<Rightarrow> int \<Rightarrow> string + bytes \<times> handle" where
  "f_read h n =
     (if n < - 1 then Inl read_length_error
      else if n = - 1 then Inr (f_read_all h)
      else Inr (take (nat n) (drop (h_pos h) (h_data h)),
                h\<lparr>h_pos := max (h_pos h) (min (length (h_data h)) (h_pos h + nat n))\<rparr>))"

text \<open>\<open>f.seek(k)\<close> for \<open>k \<ge> 0\<close> (the source never seeks to a negative offset).\<close>

definition f_seek :: "handle \<Rightarrow> int \<Rightarrow> handle" where
  "f_seek h k = h\<lparr>h_pos := nat k\<rparr>"

text \<open>
  The hasher is the list of bytes fed to it so far: \<open>update\<close> appends, and
  \<open>hexdigest\<close> applies the digest function \<open>md5\<close> (of hashlib, a parameter here).
\<close>

definition hasher_update :: "bytes \<Rightarrow> bytes \<Rightarrow> bytes" where
  "hasher_update hs bs = hs @ bs"

text \<open>
  Every exception inside \<open>calculate_file_hash\<close> is caught there and turned into the text
  \<open>error_\<close> followed by the first ten characters of its message.
\<close>

definition hash_error :: "string \<Rightarrow> string" where
  "hash_error e = ''error_'' @ take 10 e"

definition calculate_file_hash ::
  "(bytes \<Rightarrow> string) \<Rightarrow> filesystem \<Rightarrow> path \<Rightarrow> int \<Rightarrow> string" where
  "calculate_file_hash md5 fs p sample_size =
     (case open_rb fs p of
        Inl e \<Rightarrow> hash_error e
      | Inr f \<Rightarrow>
          (let file_size = int (length (h_data f)) in
           if file_size \<le> sample_size then
             md5 (hasher_update [] (fst (f_read_all f)))
           else
             (case f_read f (sample_size div 3) of
                Inl e \<Rightarrow> hash_error e
              | Inr (b1, f1) \<Rightarrow>
                  (let hs1 = hasher_update [] b1;
                       f2 = f_seek f1 (file_size div 2)
                   in case f_read f2 (sample_size div 3) of
                        Inl e \<Rightarrow> hash_error e
                      | Inr (b2, f3) \<Rightarrow>
                          (let hs2 = hasher_update hs1 b2;
                               f4 = f_seek f3 (max 0 (file_size - sample_size div 3))
                           in case f_read f4 (sample_size div 3) of
                                Inl e \<Rightarrow> hash_error e
                              | Inr (b3, f5) \<Rightarrow> md5 (hasher_update hs2 b3))))))"

text \<open>The default \<open>sample_size\<close>.\<close>

definition default_sample_size :: int where
  "default_sample_size = 8192"

subsection \<open>Records, documents and the vector index\<close>

record file_record =
  file_path :: path
  filename :: string
  size_bytes :: int
  modified_time :: real
  content_hash :: string
  indexed_time :: real
  embedding_index :: int
  content_preview :: string
  category :: string
  word_count :: int

text \<open>
  The dictionary the extractor returns and the indexer stores in \<open>documents\<close>.
  Keys read with \<open>.get\<close> and a default are optional; \<open>doc_embedding_index\<close> and
  \<open>doc_indexed_time\<close> are written by the indexer.
\<close>

record document =
  doc_file_path :: path
  doc_filename :: string
  doc_content :: string
  doc_category :: "string option"
  doc_word_count :: "int option"
  doc_last_modified :: "string option"
  doc_metadata_modified :: "string option"
  doc_embedding_index :: int
  doc_indexed_time :: real

text \<open>
  \<open>faiss.IndexFlatIP\<close>: a dimension and the stored vectors in order of insertion.
  \<open>add\<close> refuses a vector of another dimension; \<open>search\<close> returns the \<open>k\<close> stored
  vectors of largest inner product with the query, best first, each with its position.
  Vectors of equal product come in the order of their positions here; the library leaves
  that order open. Components and products are real numbers.
\<close>

record flat_index =
  dim :: nat
  stored :: "vector list"

definition ntotal :: "flat_index \<Rightarrow> int" where
  "ntotal ix = int (length (stored ix))"

definition index_add :: "flat_index \<Rightarrow> vector \<Rightarrow> flat_index option" where
  "index_add ix v = (if length v = dim ix then Some (ix\<lparr>stored := stored ix @ [v]\<rparr>) else None)"

definition inner_product :: "vector \<Rightarrow> vector \<Rightarrow> real" where
  "inner_product a b = sum_list (map2 (*) a b)"

definition index_search :: "flat_index \<Rightarrow> vector \<Rightarrow> nat \<Rightarrow> (real \<times> nat) list" where
  "index_search ix q k =
     take k (sort_key (\<lambda>(s, i). - s)
               (zip (map (inner_product q) (stored ix)) [0 ..< length (stored ix)]))"

record indexer =
  file_records :: "(path \<times> file_record) list"
  faiss :: flat_index
  documents :: "document list"

text \<open>
  What the indexer is given from outside: the disk, the digest function, the extractor
  (\<open>None\<close> when it returns nothing or raises), the embedding model (\<open>None\<close> when
  \<open>create_embedding\<close> returns \<open>None\<close>) and the clock.
\<close>

record world =
  disk :: filesystem
  md5 :: "bytes \<Rightarrow> string"
  extract_content :: "path \<Rightarrow> document option"
  create_embedding :: "string \<Rightarrow> vector option"
  now :: real

subsection \<open>Change detection\<close>

definition needs_reindexing :: "world \<Rightarrow> indexer \<Rightarrow> path \<Rightarrow> bool" where
  "needs_reindexing w s p =
     (case map_of (file_records s) p of
        None \<Rightarrow> True
      | Some record \<Rightarrow>
          (case disk w p of
             None \<Rightarrow> True
           | Some stat \<Rightarrow>
               if st_mtime stat > modified_time record then True
               else if st_size stat \<noteq> size_bytes record then True
               else if calculate_file_hash (md5 w) (disk w) p default_sample_size
                         \<noteq> content_hash record then True
               else False))"

subsection \<open>Indexing one file\<close>

text \<open>
  The position of the first document with the given path (the loop with \<open>break\<close>).
\<close>

fun find_document :: "document list \<Rightarrow> path \<Rightarrow> nat option" where
  "find_document [] p = None"
| "find_document (d # ds) p =
     (if doc_file_path d = p then Some 0 else map_option Suc (find_document ds p))"

definition index_single_file :: "world \<Rightarrow> indexer \<Rightarrow> path \<Rightarrow> indexer \<times> bool" where
  "index_single_file w s p =
     (case extract_content w p of
        None \<Rightarrow> (s, False)
      | Some content_data \<Rightarrow>
          (case create_embedding w (doc_content content_data) of
             None \<Rightarrow> (s, False)
           | Some embedding \<Rightarrow>
               (case index_add (faiss s) embedding of
                  None \<Rightarrow> (s, False)
                | Some index' \<Rightarrow>
                    (let s1 = s\<lparr>faiss := index'\<rparr>;
                         slot = ntotal index' - 1
                     in case disk w p of
                          None \<Rightarrow> (s1, False)
                        | Some stat \<Rightarrow>
                            (let record = \<lparr>file_path = p,
                                   filename = path_name p,
                                   size_bytes = st_size stat,
                                   modified_time = st_mtime stat,
                                   content_hash =
                                     calculate_file_hash (md5 w) (disk w) p default_sample_size,
                                   indexed_time = now w,
                                   embedding_index = slot,
                                   content_preview = take 200 (doc_content content_data),
                                   category = (case doc_category content_data of
                                                 None \<Rightarrow> ''unknown'' | Some c \<Rightarrow> c),
                                   word_count = (case doc_word_count content_data of
                                                   None \<Rightarrow> 0 | Some n \<Rightarrow> n)\<rparr>;
                                 s2 = s1\<lparr>file_records := AList.update p record (file_records s1)\<rparr>;
                                 doc_data = content_data\<lparr>doc_embedding_index := slot,
                                                        doc_indexed_time := now w\<rparr>
                             in case find_document (documents s2) p of
                                  Some i \<Rightarrow> (s2\<lparr>documents := (documents s2)[i := doc_data]\<rparr>, True)
                                | None \<Rightarrow> (s2\<lparr>documents := documents s2 @ [doc_data]\<rparr>, True))))))"

subsection \<open>Incremental indexing\<close>

record statistics =
  total_files :: int
  processed :: int
  skipped :: int
  errors :: int

text \<open>
  The worker pool runs \<open>index_single_file\<close> once for every file to process; the model
  runs them one after the other in the order of the list, and counts each outcome
  as the loop over the completed tasks does. Saving to disk (\<open>save_data\<close>) leaves the
  state in memory as it is and is not modelled; the wall-clock \<open>duration\<close> is left out
  of the statistics.
\<close>

fun process_files :: "world \<Rightarrow> indexer \<Rightarrow> path list \<Rightarrow> int \<Rightarrow> int \<Rightarrow> indexer \<times> int \<times> int" where
  "process_files w s [] n_processed n_errors = (s, n_processed, n_errors)"
| "process_files w s (p # ps) n_processed n_errors =
     (case index_single_file w s p of
        (s', success) \<Rightarrow>
          if success then process_files w s' ps (n_processed + 1) n_errors
          else process_files w s' ps n_processed (n_errors + 1))"

definition incremental_index :: "world \<Rightarrow> indexer \<Rightarrow> path list \<Rightarrow> indexer \<times> statistics" where
  "incremental_index w s files =
     (let files_to_process = filter (needs_reindexing w s) files in
      if files_to_process = [] then
        (s, \<lparr>total_files = int (length files), processed = 0,
              skipped = int (length files), errors = 0\<rparr>)
      else
        (case process_files w s files_to_process 0 0 of
           (s', n_processed, n_errors) \<Rightarrow>
             (s', \<lparr>total_files = int (length files), processed = n_processed,
                    skipped = int (length files) - int (length files_to_process),
                    errors = n_errors\<rparr>)))"

subsection \<open>Searching the index\<close>

text \<open>
  A search result: a copy of the document at the position FAISS returned, its category
  replaced by the record's when the path has a record, and the score. (The formatted
  date \<open>last_indexed\<close> that the source adds is not modelled: nothing reads it.)
\<close>

record hit =
  hit_doc :: document
  similarity_score :: real

definition make_hit :: "indexer \<Rightarrow> real \<Rightarrow> nat \<Rightarrow> hit" where
  "make_hit s score idx =
     (let d = documents s ! idx in
      case map_of (file_records s) (doc_file_path d) of
        None \<Rightarrow> \<lparr>hit_doc = d, similarity_score = score\<rparr>
      | Some record \<Rightarrow>
          \<lparr>hit_doc = d\<lparr>doc_category := Some (category record)\<rparr>, similarity_score = score\<rparr>)"

fun collect_hits :: "indexer \<Rightarrow> (real \<times> nat) list \<Rightarrow> hit list" where
  "collect_hits s [] = []"
| "collect_hits s ((score, idx) # rest) =
     (if idx < length (documents s) then make_hit s score idx # collect_hits s rest
      else collect_hits s rest)"

text \<open>
  \<open>IncrementalIndexer.search\<close>. Every exception is caught and gives the empty list:
  a query vector of the wrong dimension, and a number of neighbours that is not positive.
\<close>

definition search :: "world \<Rightarrow> indexer \<Rightarrow> string \<Rightarrow> int \<Rightarrow> hit list" where
  "search w s query top_k =
     (if documents s = [] then []
      else
        (case create_embedding w query of
           None \<Rightarrow> []
         | Some query_embedding \<Rightarrow>
             (let k = min top_k (ntotal (faiss s)) in
              if length query_embedding \<noteq> dim (faiss s) then []
              else if k \<le> 0 then []
              else collect_hits s (index_search (faiss s) query_embedding (nat k)))))"

subsection \<open>Cleaning up deleted files\<close>

fun remove_records ::
  "path list \<Rightarrow> (path \<times> file_record) list \<Rightarrow> int \<Rightarrow> (path \<times> file_record) list \<times> int" where
  "remove_records [] records deleted_count = (records, deleted_count)"
| "remove_records (p # ps) records deleted_count =
     remove_records ps (AList.delete p records) (deleted_count + 1)"

definition cleanup_deleted_files :: "world \<Rightarrow> indexer \<Rightarrow> indexer \<times> int" where
  "cleanup_deleted_files w s =
     (let files_to_remove =
            map fst (filter (\<lambda>(p, record). \<not> path_exists (disk w) p) (file_records s))
      in case remove_records files_to_remove (file_records s) 0 of
           (records', deleted_count) \<Rightarrow>
             (s\<lparr>file_records := records',
                documents := filter (\<lambda>doc. path_exists (disk w) (doc_file_path doc)) (documents s)\<rparr>,
              deleted_count))"

section \<open>Search engine (src/src/agentic\_search\_engine.py)\<close>

subsection \<open>Strings\<close>

text \<open>
  Strings are lists of bytes, so the model covers ASCII text: \<open>\w\<close> is a letter, a
  digit or the underscore, and \<open>lower\<close> maps \<open>A..Z\<close> to \<open>a..z\<close>.
\<close>

definition is_word_char :: "char \<Rightarrow> bool" where
  "is_word_char c =
     (let n = (of_char c :: nat) in
      (48 \<le> n \<and> n \<le> 57) \<or> (65 \<le> n \<and> n \<le> 90) \<or> n = 95 \<or> (97 \<le> n \<and> n \<le> 122))"

definition lower_char :: "char \<Rightarrow> char" where
  "lower_char c =
     (let n = (of_char c :: nat) in if 65 \<le> n \<and> n \<le> 90 then char_of (n + 32) else c)"

definition lower :: "string \<Rightarrow> string" where
  "lower s = map lower_char s"

text \<open>\<open>re.findall(r'\b\w+\b', s)\<close>: the maximal runs of word characters, in order.\<close>

fun findall_from :: "string \<Rightarrow> string \<Rightarrow> string list" where
  "findall_from cur [] = (if cur = [] then [] else [cur])"
| "findall_from cur (c # cs) =
     (if is_word_char c then findall_from (cur @ [c]) cs
      else if cur = [] then findall_from [] cs
      else cur # findall_from [] cs)"

definition findall_words :: "string \<Rightarrow> string list" where
  "findall_words s = findall_from [] s"

fun startswith :: "string \<Rightarrow> string \<Rightarrow> bool" where
  "startswith s [] = True"
| "startswith [] (x # xs) = False"
| "startswith (c # cs) (x # xs) = (c = x \<and> startswith cs xs)"

text \<open>\<open>x in s\<close> for strings: \<open>x\<close> occurs in \<open>s\<close> as a contiguous piece.\<close>

fun contains :: "string \<Rightarrow> string \<Rightarrow> bool" where
  "contains [] x = (x = [])"
| "contains (c # cs) x = (if startswith (c # cs) x then True else contains cs x)"

text \<open>
  \<open>s.replace(old, new)\<close> for a non-empty \<open>old\<close> (the source replaces words found by
  \<open>\w+\<close>): every occurrence, from the left, without overlap.
\<close>

function replace :: "string \<Rightarrow> string \<Rightarrow> string \<Rightarrow> string" where
  "replace [] old new = []"
| "replace (c # cs) old new =
     (if old \<noteq> [] \<and> startswith (c # cs) old
      then new @ replace (drop (length old) (c # cs)) old new
      else c # replace cs old new)"
  by pat_completeness auto
termination
  by (relation "measure (\<lambda>(s, old, new). length s)") (auto simp: neq_Nil_conv)

text \<open>\<open>' '.join(ws)\<close>.\<close>

fun join_spaces :: "string list \<Rightarrow> string" where
  "join_spaces [] = []"
| "join_spaces [w] = w"
| "join_spaces (w # v # ws) = w @ '' '' @ join_spaces (v # ws)"

subsection \<open>Query expansion\<close>

definition domain_expansions :: "(string \<times> string list) list" where
  "domain_expansions =
     [(''financial'', [''revenue'', ''profit'', ''earnings'', ''budget'', ''cost'', ''ROI'',
                       ''expenses'', ''income'']),
      (''customer'', [''client'', ''user'', ''consumer'', ''satisfaction'', ''feedback'',
                      ''support'', ''service'']),
      (''technical'', [''development'', ''code'', ''programming'', ''software'', ''system'',
                       ''implementation'']),
      (''business'', [''strategy'', ''planning'', ''management'', ''operations'', ''performance'',
                      ''metrics'']),
      (''marketing'', [''campaign'', ''promotion'', ''advertising'', ''branding'', ''engagement'',
                       ''conversion'']),
      (''project'', [''task'', ''milestone'', ''deadline'', ''deliverable'', ''timeline'',
                     ''resource'', ''scope'']),
      (''data'', [''analysis'', ''statistics'', ''metrics'', ''insights'', ''trends'', ''patterns'',
                  ''report'']),
      (''meeting'', [''discussion'', ''agenda'', ''notes'', ''minutes'', ''action items'',
                     ''decision''])]"

definition synonyms :: "(string \<times> string list) list" where
  "synonyms =
     [(''error'', [''bug'', ''issue'', ''problem'', ''failure'', ''exception'']),
      (''improve'', [''enhance'', ''optimize'', ''better'', ''upgrade'', ''refine'']),
      (''urgent'', [''critical'', ''important'', ''priority'', ''immediate'', ''asap'']),
      (''update'', [''change'', ''modify'', ''revise'', ''edit'', ''refresh'']),
      (''plan'', [''strategy'', ''roadmap'', ''schedule'', ''timeline'', ''blueprint''])]"

text \<open>The loop over \<open>terms[:2]\<close>; \<open>break\<close> leaves this loop only.\<close>

fun add_terms :: "string \<Rightarrow> string \<Rightarrow> int \<Rightarrow> string list \<Rightarrow> string list \<Rightarrow> string list" where
  "add_terms query query_lower max_expansions [] expansions = expansions"
| "add_terms query query_lower max_expansions (t # ts) expansions =
     (if \<not> contains query_lower t then
        (let expansions' = expansions @ [query @ '' '' @ t] in
         if int (length expansions') \<ge> max_expansions then expansions'
         else add_terms query query_lower max_expansions ts expansions')
      else add_terms query query_lower max_expansions ts expansions)"

fun add_domains ::
  "string \<Rightarrow> string \<Rightarrow> int \<Rightarrow> (string \<times> string list) list \<Rightarrow> string list \<Rightarrow> string list" where
  "add_domains query query_lower max_expansions [] expansions = expansions"
| "add_domains query query_lower max_expansions ((domain, terms) # rest) expansions =
     (if contains query_lower domain \<or> list_ex (contains query_lower) (slice_to 3 terms)
      then add_domains query query_lower max_expansions rest
             (add_terms query query_lower max_expansions (slice_to 2 terms) expansions)
      else add_domains query query_lower max_expansions rest expansions)"

text \<open>The loop over \<open>synonyms[word][:2]\<close>, again with a \<open>break\<close> of its own.\<close>

fun add_synonyms :: "string \<Rightarrow> string \<Rightarrow> int \<Rightarrow> string list \<Rightarrow> string list \<Rightarrow> string list" where
  "add_synonyms query word max_expansions [] expansions = expansions"
| "add_synonyms query word max_expansions (synonym # rest) expansions =
     (let expansions' = expansions @ [replace query word synonym] in
      if int (length expansions') \<ge> max_expansions then expansions'
      else add_synonyms query word max_expansions rest expansions')"

fun add_words :: "string \<Rightarrow> int \<Rightarrow> string list \<Rightarrow> string list \<Rightarrow> string list" where
  "add_words query max_expansions [] expansions = expansions"
| "add_words query max_expansions (word # rest) expansions =
     (case map_of synonyms word of
        Some syns \<Rightarrow>
          add_words query max_expansions rest
            (add_synonyms query word max_expansions (slice_to 2 syns) expansions)
      | None \<Rightarrow> add_words query max_expansions rest expansions)"

text \<open>The list of expansions before the phrase variations are added.\<close>

definition expansions_before_phrases :: "string \<Rightarrow> int \<Rightarrow> string list" where
  "expansions_before_phrases query max_expansions =
     (let query_lower = lower query;
          words = findall_words query_lower
      in add_words query max_expansions words
           (add_domains query query_lower max_expansions domain_expansions [query]))"

definition expand_query :: "string \<Rightarrow> int \<Rightarrow> string list" where
  "expand_query query max_expansions =
     (let words = findall_words (lower query);
          expansions = expansions_before_phrases query max_expansions;
          expansions' =
            (if length words > 1
             then expansions @ [join_spaces (slice_to (- 1) words)] @ [join_spaces (drop 1 words)]
             else expansions)
      in slice_to max_expansions expansions')"

definition default_max_expansions :: int where
  "default_max_expansions = 5"


subsection \<open>Intent analysis\<close>

text \<open>
  \<open>re.search(r'\b(a1|a2|...)\b', s)\<close> for alternatives that begin and end with a word
  character: some alternative occurs in \<open>s\<close> with no word character just before it and
  none just after it. \<open>prev\<close> tells whether the character before the current position
  is a word character.
\<close>

definition word_follows :: "string \<Rightarrow> bool" where
  "word_follows s = (case s of [] \<Rightarrow> False | c # cs \<Rightarrow> is_word_char c)"

definition match_here :: "string list \<Rightarrow> string \<Rightarrow> bool" where
  "match_here alts s =
     list_ex (\<lambda>a. startswith s a \<and> \<not> word_follows (drop (length a) s)) alts"

fun re_search_from :: "string list \<Rightarrow> bool \<Rightarrow> string \<Rightarrow> bool" where
  "re_search_from alts prev [] = False"
| "re_search_from alts prev (c # cs) =
     (if \<not> prev \<and> match_here alts (c # cs) then True
      else re_search_from alts (is_word_char c) cs)"

definition re_search_words :: "string list \<Rightarrow> string \<Rightarrow> bool" where
  "re_search_words alts s = re_search_from alts False s"

text \<open>
  The two entries of the intent analysis that the ranker reads. (The other entries,
  \<open>intents\<close>, \<open>entities\<close>, \<open>is_urgent\<close> and \<open>is_analytical\<close>, feed the history only.)
\<close>

record intent =
  needs_recent_files :: bool
  file_type_hints :: "string list"

definition analyze_intent :: "string \<Rightarrow> intent" where
  "analyze_intent query =
     (let query_lower = lower query;
          find_recent =
            (re_search_words [''recent'', ''latest'', ''new'', ''today'', ''yesterday'', ''this week'']
               query_lower
             \<or> re_search_words [''updated'', ''modified'', ''changed''] query_lower);
          time_refs =
            (if re_search_words [''today''] query_lower then [''today''] else [])
            @ (if re_search_words [''yesterday''] query_lower then [''yesterday''] else [])
            @ (if re_search_words [''this week''] query_lower then [''this_week''] else [])
            @ (if re_search_words [''last week''] query_lower then [''last_week''] else [])
            @ (if re_search_words [''this month''] query_lower then [''this_month''] else []);
          hints =
            (if re_search_words [''document'', ''doc'', ''pdf''] query_lower
             then [''document''] else [])
            @ (if re_search_words [''spreadsheet'', ''excel'', ''csv'', ''data''] query_lower
               then [''data''] else [])
            @ (if re_search_words [''code'', ''script'', ''program''] query_lower
               then [''code''] else [])
      in \<lparr>needs_recent_files = (if time_refs \<noteq> [] then True else find_recent),
          file_type_hints = hints\<rparr>)"

subsection \<open>Ranking\<close>

text \<open>
  What the ranker is given from outside: \<open>days_old\<close> parses an ISO date and returns the
  whole days between it and the current time (\<open>None\<close> when \<open>fromisoformat\<close> raises), and
  \<open>file_access_patterns\<close> counts the opened files.
\<close>

record search_context =
  days_old :: "string \<Rightarrow> int option"
  file_access_patterns :: "(path \<times> int) list"

definition calculate_recency_score :: "search_context \<Rightarrow> hit \<Rightarrow> intent \<Rightarrow> real" where
  "calculate_recency_score context result intent_analysis =
     (if \<not> needs_recent_files intent_analysis then 0.5
      else
        (let modified_str =
               (case doc_last_modified (hit_doc result) of
                  Some m \<Rightarrow> m
                | None \<Rightarrow>
                    (case doc_metadata_modified (hit_doc result) of Some m \<Rightarrow> m | None \<Rightarrow> []))
         in if modified_str = [] then 0.0
            else
              (case days_old context modified_str of
                 None \<Rightarrow> 0.0
               | Some d \<Rightarrow>
                   if d = 0 then 1.0
                   else if d = 1 then 0.8
                   else if d \<le> 7 then 0.6
                   else if d \<le> 30 then 0.4
                   else 0.2)))"

fun match_hints :: "string list \<Rightarrow> string \<Rightarrow> bool" where
  "match_hints [] result_category = False"
| "match_hints (hint # hints) result_category =
     (if hint = ''document'' \<and> result_category \<in> set [''document'', ''text''] then True
      else if hint = ''data'' \<and> result_category = ''data'' then True
      else if hint = ''code'' \<and> result_category = ''code'' then True
      else match_hints hints result_category)"

definition calculate_file_type_score :: "hit \<Rightarrow> intent \<Rightarrow> real" where
  "calculate_file_type_score result intent_analysis =
     (let file_hints = file_type_hints intent_analysis in
      if file_hints = [] then 0.5
      else
        (let result_category =
               lower (case doc_category (hit_doc result) of None \<Rightarrow> ''unknown'' | Some c \<Rightarrow> c)
         in if match_hints file_hints result_category then 1.0 else 0.3))"

text \<open>The loop that adds 0.5 for every query word that occurs in the file name.\<close>

fun partial_matches :: "string list \<Rightarrow> string \<Rightarrow> real \<Rightarrow> real" where
  "partial_matches [] fname partial_score = partial_score"
| "partial_matches (word # rest) fname partial_score =
     (if contains fname word then partial_matches rest fname (partial_score + 0.5)
      else partial_matches rest fname partial_score)"

text \<open>The two sets of words are lists without repetition.\<close>

definition calculate_filename_score :: "hit \<Rightarrow> string \<Rightarrow> real" where
  "calculate_filename_score result query =
     (let fname = lower (doc_filename (hit_doc result));
          query_words = remdups (findall_words (lower query))
      in if query_words = [] then 0.0
         else
           (let filename_words = remdups (findall_words fname);
                matches = filter (\<lambda>word. word \<in> set filename_words) query_words
            in if matches \<noteq> [] then real (length matches) / real (length query_words)
               else min 1.0 (partial_matches query_words fname 0 / real (length query_words))))"

definition calculate_access_score :: "search_context \<Rightarrow> hit \<Rightarrow> real" where
  "calculate_access_score context result =
     (if file_access_patterns context = [] then 0.5
      else
        (let access_count =
               (case map_of (file_access_patterns context) (doc_file_path (hit_doc result)) of
                  None \<Rightarrow> 0 | Some n \<Rightarrow> n)
         in if access_count = 0 then 0.3
            else if access_count \<le> 2 then 0.6
            else if access_count \<le> 5 then 0.8
            else 1.0))"

record scores =
  semantic_similarity :: real
  recency :: real
  file_type_match :: real
  filename_match :: real
  access_frequency :: real

definition ranking_weights :: scores where
  "ranking_weights =
     \<lparr>semantic_similarity = 0.4, recency = 0.2, file_type_match = 0.15,
      filename_match = 0.15, access_frequency = 0.1\<rparr>"

text \<open>The five components, as \<open>calculate_relevance_score\<close> and \<open>search\<close> both compute them.\<close>

definition score_breakdown :: "search_context \<Rightarrow> hit \<Rightarrow> string \<Rightarrow> intent \<Rightarrow> scores" where
  "score_breakdown context result query intent_analysis =
     \<lparr>semantic_similarity = similarity_score result,
      recency = calculate_recency_score context result intent_analysis,
      file_type_match = calculate_file_type_score result intent_analysis,
      filename_match = calculate_filename_score result query,
      access_frequency = calculate_access_score context result\<rparr>"

definition weighted_sum :: "scores \<Rightarrow> real" where
  "weighted_sum sc =
     0 + semantic_similarity sc * semantic_similarity ranking_weights
       + recency sc * recency ranking_weights
       + file_type_match sc * file_type_match ranking_weights
       + filename_match sc * filename_match ranking_weights
       + access_frequency sc * access_frequency ranking_weights"

definition calculate_relevance_score ::
  "search_context \<Rightarrow> hit \<Rightarrow> string \<Rightarrow> intent \<Rightarrow> real" where
  "calculate_relevance_score context result query intent_analysis =
     min 1.0 (max 0.0 (weighted_sum (score_breakdown context result query intent_analysis)))"

subsection \<open>The search of the engine\<close>

text \<open>
  \<open>all_results\<close> is a dictionary from paths to the best hit so far: a new path goes to the
  end, a better hit for a known path replaces the old one in its place.
\<close>

fun keep_best :: "hit list \<Rightarrow> (path \<times> hit) list \<Rightarrow> (path \<times> hit) list" where
  "keep_best [] all_results = all_results"
| "keep_best (result # rest) all_results =
     (let fp = doc_file_path (hit_doc result) in
      case map_of all_results fp of
        None \<Rightarrow> keep_best rest (AList.update fp result all_results)
      | Some best \<Rightarrow>
          if similarity_score result > similarity_score best
          then keep_best rest (AList.update fp result all_results)
          else keep_best rest all_results)"

fun fan_out ::
  "(string \<Rightarrow> int \<Rightarrow> hit list) \<Rightarrow> string list \<Rightarrow> int \<Rightarrow> (path \<times> hit) list \<Rightarrow> (path \<times> hit) list" where
  "fan_out indexer_search [] top_k all_results = all_results"
| "fan_out indexer_search (expanded_query # rest) top_k all_results =
     fan_out indexer_search rest top_k
       (keep_best (indexer_search expanded_query (top_k * 2)) all_results)"

text \<open>
  The fields of a \<open>SearchResult\<close> that the order depends on or that identify the file.
  (The explanation, the preview, the date and the size are texts for display.)
\<close>

record search_result =
  sr_file_path :: path
  sr_filename :: string
  sr_similarity_score :: real
  sr_category :: string
  confidence :: real

definition enhance :: "search_context \<Rightarrow> string \<Rightarrow> intent \<Rightarrow> hit \<Rightarrow> search_result" where
  "enhance context query intent_analysis result =
     \<lparr>sr_file_path = doc_file_path (hit_doc result),
      sr_filename = doc_filename (hit_doc result),
      sr_similarity_score = similarity_score result,
      sr_category = (case doc_category (hit_doc result) of None \<Rightarrow> ''unknown'' | Some c \<Rightarrow> c),
      confidence = calculate_relevance_score context result query intent_analysis\<rparr>"

text \<open>
  \<open>list.sort(key=..., reverse=True)\<close> is stable: results of equal confidence keep their
  order. Sorting by the negated key with a stable sort is the same.
\<close>

definition sort_by_confidence :: "search_result list \<Rightarrow> search_result list" where
  "sort_by_confidence rs = sort_key (\<lambda>r. - confidence r) rs"

text \<open>
  \<open>AgenticSearchEngine.search\<close>, for the indexer it was built with (its \<open>search\<close>
  method is the parameter \<open>indexer_search\<close>), in its three steps: the fan-out over the
  expanded queries, the ranking of every file found, and the sort.
\<close>

definition all_results :: "(string \<Rightarrow> int \<Rightarrow> hit list) \<Rightarrow> string \<Rightarrow> int \<Rightarrow> (path \<times> hit) list" where
  "all_results indexer_search query top_k =
     fan_out indexer_search (expand_query query default_max_expansions) top_k []"

definition enhanced_results ::
  "(string \<Rightarrow> int \<Rightarrow> hit list) \<Rightarrow> search_context \<Rightarrow> string \<Rightarrow> int \<Rightarrow> search_result list" where
  "enhanced_results indexer_search context query top_k =
     (let intent_analysis = analyze_intent query
      in map (enhance context query intent_analysis)
           (map snd (all_results indexer_search query top_k)))"

definition engine_search ::
  "(string \<Rightarrow> int \<Rightarrow> hit list) \<Rightarrow> search_context \<Rightarrow> string \<Rightarrow> int \<Rightarrow> search_result list" where
  "engine_search indexer_search context query top_k =
     slice_to top_k (sort_by_confidence (enhanced_results indexer_search context query top_k))"

section \<open>Notions used in the statements\<close>

text \<open>The \<open>n\<close> bytes of a file from offset \<open>off\<close> on.\<close>

definition window :: "bytes \<Rightarrow> nat \<Rightarrow> nat \<Rightarrow> bytes" where
  "window bs off n = take n (drop off bs)"

text \<open>The query with its last word dropped, and with its first word dropped.\<close>

definition prefix_variant :: "string \<Rightarrow> string" where
  "prefix_variant query = join_spaces (butlast (findall_words (lower query)))"

definition suffix_variant :: "string \<Rightarrow> string" where
  "suffix_variant query = join_spaces (tl (findall_words (lower query)))"

text \<open>
  The filename signal as the specification words it: the share of query tokens among the
  filename tokens if the two sets overlap, else 0.5 per query token that occurs in the
  file name, clipped to 1.
\<close>

definition filename_score_as_specified :: "string \<Rightarrow> string \<Rightarrow> real" where
  "filename_score_as_specified fname query =
     (let query_tokens = set (findall_words (lower query));
          filename_tokens = set (findall_words (lower fname))
      in if query_tokens \<inter> filename_tokens \<noteq> {}
         then real (card (query_tokens \<inter> filename_tokens)) / real (card query_tokens)
         else min 1 (0.5 * real (card {w \<in> query_tokens. contains (lower fname) w})))"

text \<open>
  Whether \<open>index_single_file\<close> succeeds on a path, for an index of dimension \<open>d\<close>: the
  extractor and the embedding model both deliver, the vector fits the index, and the file
  can be examined.
\<close>

definition indexable :: "world \<Rightarrow> nat \<Rightarrow> path \<Rightarrow> bool" where
  "indexable w d p =
     (case extract_content w p of
        None \<Rightarrow> False
      | Some content_data \<Rightarrow>
          (case create_embedding w (doc_content content_data) of
             None \<Rightarrow> False
           | Some embedding \<Rightarrow> length embedding = d \<and> disk w p \<noteq> None))"

text \<open>The order of Python strings: by the first character that differs.\<close>

fun string_less :: "string \<Rightarrow> string \<Rightarrow> bool" where
  "string_less [] [] = False"
| "string_less [] (y # ys) = True"
| "string_less (x # xs) [] = False"
| "string_less (x # xs) (y # ys) =
     (if (of_char x :: nat) < of_char y then True
      else if x = y then string_less xs ys
      else False)"

text \<open>
  The order of results as the specification words it: by falling final score, ties by
  the larger semantic score, then by the path.
\<close>

definition before_as_specified :: "search_result \<Rightarrow> search_result \<Rightarrow> bool" where
  "before_as_specified x y =
     (if confidence x \<noteq> confidence y then confidence x > confidence y
      else if sr_similarity_score x \<noteq> sr_similarity_score y
      then sr_similarity_score x > sr_similarity_score y
      else \<not> string_less (sr_file_path y) (sr_file_path x))"

definition ordered_as_specified :: "search_result list \<Rightarrow> bool" where
  "ordered_as_specified rs = sorted_wrt before_as_specified rs"

text \<open>
  The order in which a run of paths is first met: every path once, at the place of its
  first occurrence. \<open>position_of\<close> is the place of a path in such a list.
\<close>

fun first_met :: "'a list \<Rightarrow> 'a list" where
  "first_met [] = []"
| "first_met (x # xs) = x # filter (\<lambda>y. y \<noteq> x) (first_met xs)"

fun position_of :: "'a list \<Rightarrow> 'a \<Rightarrow> nat" where
  "position_of [] x = 0"
| "position_of (y # ys) x = (if x = y then 0 else Suc (position_of ys x))"

text \<open>
  The paths of all hits of the fan-out, expansion after expansion and hit after hit, in
  the order of their first meeting.
\<close>

definition met_paths :: "(string \<Rightarrow> int \<Rightarrow> hit list) \<Rightarrow> string \<Rightarrow> int \<Rightarrow> path list" where
  "met_paths indexer_search query top_k =
     first_met (concat (map (\<lambda>q. map (\<lambda>h. doc_file_path (hit_doc h)) (indexer_search q (top_k * 2)))
                         (expand_query query default_max_expansions)))"

text \<open>
  The order of results as the code makes it: by falling final score, and among equal
  scores by the place of the path in the order of first meeting.
\<close>

definition ranked_before :: "path list \<Rightarrow> search_result \<Rightarrow> search_result \<Rightarrow> bool" where
  "ranked_before met x y =
     (if confidence x \<noteq> confidence y then confidence x > confidence y
      else position_of met (sr_file_path x) < position_of met (sr_file_path y))"

text \<open>
  No record holds the text of a failed hash: every recorded hash is a digest. This is
  what indexing leaves behind when the extractor delivers readable files only.
\<close>

definition hashes_are_digests :: "indexer \<Rightarrow> bool" where
  "hashes_are_digests s =
     list_all (\<lambda>(p, entry). \<not> startswith (content_hash entry) ''error_'') (file_records s)"

section \<open>Example data\<close>

definition demo_file :: disk_file where
  "demo_file = \<lparr>file_bytes = ''abcdefghij'', st_mtime = 5, open_error = None\<rparr>"

definition demo_fs :: filesystem where
  "demo_fs = [''/d/a.txt'' \<mapsto> demo_file]"

text \<open>
  A small world: text files that can be opened are extracted as they are, every other
  file is refused;
  the embedding model knows six texts; the digest is a stand-in for MD5.
\<close>

definition demo_doc :: "path \<Rightarrow> string \<Rightarrow> document" where
  "demo_doc p content =
     \<lparr>doc_file_path = p, doc_filename = path_name p, doc_content = content,
      doc_category = Some ''text'', doc_word_count = Some 1, doc_last_modified = None,
      doc_metadata_modified = None, doc_embedding_index = 0, doc_indexed_time = 0\<rparr>"

definition demo_extract :: "filesystem \<Rightarrow> path \<Rightarrow> document option" where
  "demo_extract fs p =
     (case fs p of
        None \<Rightarrow> None
      | Some f \<Rightarrow>
          if open_error f \<noteq> None then None
          else if drop (length p - 4) p = ''.txt'' then Some (demo_doc p (file_bytes f))
          else None)"

definition demo_embedding :: "string \<Rightarrow> vector option" where
  "demo_embedding text =
     map_of [(''alpha'', [3 / 10, 9 / 10]), (''beta'', [9 / 10, 0]),
             (''omega'', [0, - 1]),
             (''cat dog'', [1, 0]), (''cat'', [0, 1]), (''dog'', [0, 0])] text"

definition demo_world :: "filesystem \<Rightarrow> world" where
  "demo_world fs =
     \<lparr>disk = fs, md5 = (\<lambda>bs. ''md5:'' @ bs), extract_content = demo_extract fs,
      create_embedding = demo_embedding, now = 100\<rparr>"

definition text_file :: "string \<Rightarrow> real \<Rightarrow> disk_file" where
  "text_file content mtime = \<lparr>file_bytes = content, st_mtime = mtime, open_error = None\<rparr>"

definition empty_indexer :: indexer where
  "empty_indexer = \<lparr>file_records = [], faiss = \<lparr>dim = 2, stored = []\<rparr>, documents = []\<rparr>"

definition no_context :: search_context where
  "no_context = \<lparr>days_old = (\<lambda>s. None), file_access_patterns = []\<rparr>"

text \<open>Two text files, indexed in the order \<open>b.txt\<close>, \<open>a.txt\<close>.\<close>

definition disk_ba :: filesystem where
  "disk_ba = [''/d/b.txt'' \<mapsto> text_file ''beta'' 1, ''/d/a.txt'' \<mapsto> text_file ''alpha'' 1]"

definition indexer_ba :: indexer where
  "indexer_ba = fst (incremental_index (demo_world disk_ba) empty_indexer [''/d/b.txt'', ''/d/a.txt''])"

text \<open>The search method of the indexer that holds the two files.\<close>

definition search_ba :: "string \<Rightarrow> int \<Rightarrow> hit list" where
  "search_ba = search (demo_world disk_ba) indexer_ba"

definition hit_a :: hit where
  "hit_a = \<lparr>hit_doc = (demo_doc ''/d/a.txt'' ''alpha'')
                \<lparr>doc_embedding_index := 1, doc_indexed_time := 100\<rparr>,
            similarity_score = 9 / 10\<rparr>"

text \<open>A file whose vector points away from the query.\<close>

definition disk_o :: filesystem where
  "disk_o = [''/d/o.txt'' \<mapsto> text_file ''omega'' 1]"

definition indexer_o :: indexer where
  "indexer_o = fst (incremental_index (demo_world disk_o) empty_indexer [''/d/o.txt''])"

definition hit_o :: hit where
  "hit_o = \<lparr>hit_doc = (demo_doc ''/d/o.txt'' ''omega'')
                \<lparr>doc_embedding_index := 0, doc_indexed_time := 100\<rparr>,
            similarity_score = - 1\<rparr>"

definition hit_budget :: hit where
  "hit_budget = \<lparr>hit_doc = demo_doc ''/d/budget.txt'' ''alpha'', similarity_score = 0\<rparr>"

text \<open>A picture next to the two text files: the extractor refuses it.\<close>

definition disk_bac :: filesystem where
  "disk_bac = [''/d/b.txt'' \<mapsto> text_file ''beta'' 1, ''/d/a.txt'' \<mapsto> text_file ''alpha'' 1,
               ''/d/c.png'' \<mapsto> text_file ''PNG'' 1]"

text \<open>The same world at a later time.\<close>

definition later :: "world \<Rightarrow> world" where
  "later w = w\<lparr>now := now w + 60\<rparr>"

text \<open>The file \<open>a.txt\<close> as it was indexed, but no longer open to reading.\<close>

definition disk_locked :: filesystem where
  "disk_locked =
     [''/d/a.txt'' \<mapsto> \<lparr>file_bytes = ''alpha'', st_mtime = 1,
                         open_error = Some ''[Errno 13] Permission denied''\<rparr>]"

text \<open>One file, indexed, then rewritten and indexed again.\<close>

definition disk_a1 :: filesystem where
  "disk_a1 = [''/d/a.txt'' \<mapsto> text_file ''alpha'' 1]"

definition disk_a2 :: filesystem where
  "disk_a2 = [''/d/a.txt'' \<mapsto> text_file ''beta'' 2]"

definition indexer_a1 :: indexer where
  "indexer_a1 = fst (incremental_index (demo_world disk_a1) empty_indexer [''/d/a.txt''])"

definition indexer_a2 :: indexer where
  "indexer_a2 = fst (incremental_index (later (demo_world disk_a2)) indexer_a1 [''/d/a.txt''])"

text \<open>The two files indexed, then \<open>b.txt\<close> deleted from the disk and the index cleaned.\<close>

definition indexer_cleaned :: indexer where
  "indexer_cleaned = fst (cleanup_deleted_files (demo_world disk_a1) indexer_ba)"

section \<open>Statistics of a run\<close>

lemma process_files_counts:
  "process_files w s ps a b = (s', a', b') \<Longrightarrow>
     a' + b' = a + b + int (length ps) \<and> a \<le> a' \<and> b \<le> b'"
proof (induction ps arbitrary: s a b)
  case Nil
  then show ?case by simp
next
  case (Cons p ps)
  obtain s1 ok where step: "index_single_file w s p = (s1, ok)"
    by (cases "index_single_file w s p")
  show ?case
  proof (cases ok)
    case True
    with Cons.prems step have "process_files w s1 ps (a + 1) b = (s', a', b')" by simp
    from Cons.IH [OF this] show ?thesis by simp
  next
    case False
    with Cons.prems step have "process_files w s1 ps a (b + 1) = (s', a', b')" by simp
    from Cons.IH [OF this] show ?thesis by simp
  qed
qed

text \<open>
  C10. Every run of \<open>incremental_index\<close> accounts for each candidate file exactly once:
  \<open>processed + errors + skipped = total_files\<close>, \<open>total_files\<close> is the length of the
  input list, and the four counts are non-negative.
\<close>

theorem incremental_index_accounts_for_every_file:
  "total_files (snd (incremental_index w s files)) = int (length files) \<and>
   processed (snd (incremental_index w s files)) + errors (snd (incremental_index w s files))
     + skipped (snd (incremental_index w s files)) = total_files (snd (incremental_index w s files)) \<and>
   0 \<le> total_files (snd (incremental_index w s files)) \<and>
   0 \<le> processed (snd (incremental_index w s files)) \<and>
   0 \<le> skipped (snd (incremental_index w s files)) \<and>
   0 \<le> errors (snd (incremental_index w s files))"
proof (cases "filter (needs_reindexing w s) files = []")
  case True
  then show ?thesis by (simp add: incremental_index_def)
next
  case False
  obtain s' a b where run: "process_files w s (filter (needs_reindexing w s) files) 0 0 = (s', a, b)"
    by (cases "process_files w s (filter (needs_reindexing w s) files) 0 0")
  from process_files_counts [OF run]
  have counts: "a + b = int (length (filter (needs_reindexing w s) files))" "0 \<le> a" "0 \<le> b"
    by simp_all
  have le: "length (filter (needs_reindexing w s) files) \<le> length files"
    by (rule length_filter_le)
  from False run counts le show ?thesis
    by (simp add: incremental_index_def)
qed

section \<open>Content hash\<close>

text \<open>
  C9. The hash of a readable file is the digest of its whole content when its size is
  at most \<open>S\<close>, and otherwise the digest of three windows of \<open>S div 3\<close> bytes each,
  at the offsets \<open>0\<close>, \<open>size div 2\<close> and \<open>size - S div 3\<close>.
\<close>

theorem calculate_file_hash_whole_or_three_windows:
  assumes "fs p = Some f" and "open_error f = None" and "0 \<le> S"
  shows "calculate_file_hash h fs p S =
           (if st_size f \<le> S then h (file_bytes f)
            else h (window (file_bytes f) 0 (nat (S div 3))
                    @ window (file_bytes f) (nat (st_size f div 2)) (nat (S div 3))
                    @ window (file_bytes f) (nat (st_size f - S div 3)) (nat (S div 3))))
         \<and> (S < st_size f \<longrightarrow>
              length (window (file_bytes f) 0 (nat (S div 3))) = nat (S div 3)
            \<and> length (window (file_bytes f) (nat (st_size f div 2)) (nat (S div 3))) = nat (S div 3)
            \<and> length (window (file_bytes f) (nat (st_size f - S div 3)) (nat (S div 3))) = nat (S div 3))"
proof -
  have opened: "open_rb fs p = Inr \<lparr>h_data = file_bytes f, h_pos = 0\<rparr>"
    using assms(1,2) by (simp add: open_rb_def)
  have hash: "calculate_file_hash h fs p S =
           (if st_size f \<le> S then h (file_bytes f)
            else h (window (file_bytes f) 0 (nat (S div 3))
                    @ window (file_bytes f) (nat (st_size f div 2)) (nat (S div 3))
                    @ window (file_bytes f) (nat (st_size f - S div 3)) (nat (S div 3))))"
    using assms(3) pos_imp_zdiv_nonneg_iff [of 3 S]
    by (simp add: calculate_file_hash_def opened st_size_def f_read_all_def f_read_def f_seek_def
        hasher_update_def window_def Let_def max_def)
  have lens: "length (window (file_bytes f) 0 (nat (S div 3))) = nat (S div 3)
            \<and> length (window (file_bytes f) (nat (st_size f div 2)) (nat (S div 3))) = nat (S div 3)
            \<and> length (window (file_bytes f) (nat (st_size f - S div 3)) (nat (S div 3))) = nat (S div 3)"
    if big: "S < st_size f"
  proof -
    define n where "n = length (file_bytes f)"
    define k where "k = nat (S div 3)"
    have n: "S < int n" using big by (simp add: st_size_def n_def)
    have k_le: "int k \<le> S" using assms(3) by (simp add: k_def) presburger
    have first: "k \<le> n" using n k_le by linarith
    have k3: "3 * int k \<le> S" using assms(3) by (simp add: k_def) presburger
    have half: "2 * nat (int n div 2) \<le> n" by linarith
    have middle: "k \<le> n - nat (int n div 2)" using n k3 half by linarith
    have last: "n - nat (int n - int k) = k" using first by linarith
    have k_int: "S div 3 = int k" using assms(3) by (simp add: k_def)
    show ?thesis
      using first middle last
      by (simp add: window_def st_size_def n_def [symmetric] k_def [symmetric] k_int)
  qed
  from hash lens show ?thesis by blast
qed

theorem calculate_file_hash_whole_or_three_windows_witness:
  "demo_fs ''/d/a.txt'' = Some demo_file \<and> open_error demo_file = None \<and> st_size demo_file = 10
   \<and> calculate_file_hash rev demo_fs ''/d/a.txt'' 6 = rev ''abfgij''
   \<and> calculate_file_hash rev demo_fs ''/d/a.txt'' 10 = rev ''abcdefghij''"
proof -
  have on_disk: "demo_fs ''/d/a.txt'' = Some demo_file" and readable: "open_error demo_file = None"
    by (simp_all add: demo_fs_def demo_file_def)
  have size: "st_size demo_file = 10"
    by (simp add: st_size_def demo_file_def)
  have large: "calculate_file_hash rev demo_fs ''/d/a.txt'' 6 = rev ''abfgij''"
    using on_disk readable
      calculate_file_hash_whole_or_three_windows [of demo_fs "''/d/a.txt''" demo_file 6 rev]
    by (simp add: size) (simp add: window_def demo_file_def)
  have small: "calculate_file_hash rev demo_fs ''/d/a.txt'' 10 = rev ''abcdefghij''"
    using on_disk readable
      calculate_file_hash_whole_or_three_windows [of demo_fs "''/d/a.txt''" demo_file 10 rev]
    by (simp add: size) (simp add: demo_file_def)
  from on_disk readable size large small show ?thesis by blast
qed

section \<open>Query expansion\<close>

lemma add_terms_extends: "\<exists>more. add_terms q ql m ts exps = exps @ more"
proof (induction ts arbitrary: exps)
  case Nil
  then show ?case by simp
next
  case (Cons t ts)
  show ?case
  proof (cases "contains ql t")
    case True
    with Cons.IH [of exps] show ?thesis by simp
  next
    case False
    from Cons.IH [of "exps @ [q @ '' '' @ t]"]
    obtain more where "add_terms q ql m ts (exps @ [q @ '' '' @ t]) = (exps @ [q @ '' '' @ t]) @ more"
      by blast
    with False show ?thesis by (simp add: Let_def)
  qed
qed

lemma add_domains_extends: "\<exists>more. add_domains q ql m ds exps = exps @ more"
proof (induction ds arbitrary: exps)
  case Nil
  then show ?case by simp
next
  case (Cons d ds)
  obtain domain terms where d: "d = (domain, terms)" by (cases d)
  obtain m1 where m1: "add_terms q ql m (slice_to 2 terms) exps = exps @ m1"
    using add_terms_extends by blast
  obtain m2 where m2: "add_domains q ql m ds (exps @ m1) = (exps @ m1) @ m2"
    using Cons.IH by blast
  obtain m3 where m3: "add_domains q ql m ds exps = exps @ m3"
    using Cons.IH by blast
  show ?case using d m1 m2 m3 by simp
qed

lemma add_synonyms_extends: "\<exists>more. add_synonyms q w m syns exps = exps @ more"
proof (induction syns arbitrary: exps)
  case Nil
  then show ?case by simp
next
  case (Cons y ys)
  from Cons.IH [of "exps @ [replace q w y]"]
  obtain more where "add_synonyms q w m ys (exps @ [replace q w y]) = (exps @ [replace q w y]) @ more"
    by blast
  then show ?case by (simp add: Let_def)
qed

lemma add_words_extends: "\<exists>more. add_words q m ws exps = exps @ more"
proof (induction ws arbitrary: exps)
  case Nil
  then show ?case by simp
next
  case (Cons w ws)
  show ?case
  proof (cases "map_of synonyms w")
    case None
    with Cons.IH [of exps] show ?thesis by simp
  next
    case (Some syns)
    obtain m1 where m1: "add_synonyms q w m (slice_to 2 syns) exps = exps @ m1"
      using add_synonyms_extends by blast
    obtain m2 where "add_words q m ws (exps @ m1) = (exps @ m1) @ m2"
      using Cons.IH by blast
    with Some m1 show ?thesis by simp
  qed
qed

lemma expansions_before_phrases_first:
  "\<exists>more. expansions_before_phrases q m = q # more"
proof -
  obtain m1 where m1: "add_domains q (lower q) m domain_expansions [q] = [q] @ m1"
    using add_domains_extends by blast
  obtain m2 where "add_words q m (findall_words (lower q)) ([q] @ m1) = ([q] @ m1) @ m2"
    using add_words_extends by blast
  with m1 show ?thesis by (simp add: expansions_before_phrases_def Let_def)
qed

text \<open>
  C8 (amended). For \<open>M \<ge> 1\<close>, \<open>expand_query\<close> returns at most \<open>M\<close> queries and the
  first is the query itself. When the query has more than one word, the prefix variant
  (the lower-cased words but the last, joined by spaces) is in the list if fewer than
  \<open>M\<close> expansions were made before the phrase step, and the suffix variant (the
  lower-cased words but the first) is in the list if fewer than \<open>M - 1\<close> were.
\<close>

theorem expand_query_original_first_and_phrases:
  assumes "1 \<le> M"
  shows "int (length (expand_query Q M)) \<le> M
       \<and> expand_query Q M \<noteq> []
       \<and> hd (expand_query Q M) = Q
       \<and> (1 < length (findall_words (lower Q)) \<and> int (length (expansions_before_phrases Q M)) < M
            \<longrightarrow> prefix_variant Q \<in> set (expand_query Q M))
       \<and> (1 < length (findall_words (lower Q)) \<and> int (length (expansions_before_phrases Q M)) + 1 < M
            \<longrightarrow> suffix_variant Q \<in> set (expand_query Q M))"
proof -
  obtain more where first: "expansions_before_phrases Q M = Q # more"
    using expansions_before_phrases_first by blast
  define n where "n = length (expansions_before_phrases Q M)"
  have len: "int (length (expand_query Q M)) \<le> M"
    using assms by (simp add: expand_query_def slice_to_def Let_def)
  have nonempty: "expand_query Q M \<noteq> []" and head: "hd (expand_query Q M) = Q"
    using assms first by (auto simp: expand_query_def slice_to_def Let_def take_Cons')
  have pre: "prefix_variant Q \<in> set (expand_query Q M)"
    if "1 < length (findall_words (lower Q))" "int n < M"
  proof -
    have "expand_query Q M =
        take (nat M) (expansions_before_phrases Q M @ [prefix_variant Q, suffix_variant Q])"
      using that assms
      by (simp add: expand_query_def slice_to_def Let_def prefix_variant_def suffix_variant_def
          butlast_conv_take drop_Suc)
    moreover have "n < nat M" using that by linarith
    ultimately show ?thesis
      by (simp add: n_def take_Cons')
  qed
  have suf: "suffix_variant Q \<in> set (expand_query Q M)"
    if "1 < length (findall_words (lower Q))" "int n + 1 < M"
  proof -
    have "expand_query Q M =
        take (nat M) (expansions_before_phrases Q M @ [prefix_variant Q, suffix_variant Q])"
      using that assms
      by (simp add: expand_query_def slice_to_def Let_def prefix_variant_def suffix_variant_def
          butlast_conv_take drop_Suc)
    moreover have "Suc n < nat M" using that by linarith
    ultimately show ?thesis
      by (simp add: n_def take_Cons')
  qed
  from len nonempty head pre suf show ?thesis unfolding n_def by blast
qed

theorem expand_query_original_first_and_phrases_witness:
  "length (findall_words (lower ''financial report'')) = 2
   \<and> length (expansions_before_phrases ''financial report'' 5) = 3
   \<and> prefix_variant ''financial report'' = ''financial''
   \<and> suffix_variant ''financial report'' = ''report''
   \<and> hd (expand_query ''financial report'' 5) = ''financial report''
   \<and> ''financial'' \<in> set (expand_query ''financial report'' 5)
   \<and> ''report'' \<in> set (expand_query ''financial report'' 5)"
proof -
  have words: "length (findall_words (lower ''financial report'')) = 2"
    by code_simp
  have before: "length (expansions_before_phrases ''financial report'' 5) = 3"
    by code_simp
  have pre: "prefix_variant ''financial report'' = ''financial''"
    and suf: "suffix_variant ''financial report'' = ''report''"
    by code_simp+
  from expand_query_original_first_and_phrases [of 5 "''financial report''"]
  have "hd (expand_query ''financial report'' 5) = ''financial report''
      \<and> ''financial'' \<in> set (expand_query ''financial report'' 5)
      \<and> ''report'' \<in> set (expand_query ''financial report'' 5)"
    by (simp add: words before pre suf)
  with words before pre suf show ?thesis by blast
qed

text \<open>
  The claim as stated fails for the query \<open>financial revenue error\<close> and the default
  limit 5: four expansions exist before the phrase step, so the limit is not reached,
  yet the suffix variant \<open>revenue error\<close> is cut off.
\<close>

theorem expand_query_drops_suffix_counterexample:
  "1 < length (findall_words (lower ''financial revenue error''))
   \<and> length (expansions_before_phrases ''financial revenue error'' default_max_expansions) = 4
   \<and> join_spaces (drop 1 (findall_words (lower ''financial revenue error''))) = ''revenue error''
   \<and> ''revenue error'' \<notin> set (expand_query ''financial revenue error'' default_max_expansions)"
  by code_simp

section \<open>Ranking\<close>

lemma recency_range:
  "0 \<le> calculate_recency_score c r i \<and> calculate_recency_score c r i \<le> 1"
  by (simp add: calculate_recency_score_def Let_def split: option.splits)

lemma file_type_range:
  "0 \<le> calculate_file_type_score r i \<and> calculate_file_type_score r i \<le> 1"
  by (simp add: calculate_file_type_score_def Let_def)

lemma access_range:
  "0 \<le> calculate_access_score c r \<and> calculate_access_score c r \<le> 1"
  by (simp add: calculate_access_score_def Let_def)

lemma partial_matches_count:
  "partial_matches ws f acc = acc + 0.5 * real (length (filter (contains f) ws))"
  by (induction ws arbitrary: acc) (auto simp: algebra_simps)

lemma filename_range:
  "0 \<le> calculate_filename_score r q \<and> calculate_filename_score r q \<le> 1"
proof -
  define qs where "qs = remdups (findall_words (lower q))"
  define ms where "ms = filter (\<lambda>word. word \<in> set (remdups (findall_words
      (lower (doc_filename (hit_doc r)))))) qs"
  have "length ms \<le> length qs" unfolding ms_def by (rule length_filter_le)
  then have ratio: "real (length ms) / real (length qs) \<le> 1"
    by (simp add: divide_le_eq_1)
  have partial: "0 \<le> partial_matches qs f 0 / real (length qs)" for f
    by (simp add: partial_matches_count)
  show ?thesis
    using ratio partial
    by (simp add: calculate_filename_score_def Let_def qs_def [symmetric] ms_def [symmetric])
qed

lemma relevance_formula:
  "calculate_relevance_score c r q i =
     min 1 (max 0 (0.40 * similarity_score r
                   + 0.20 * calculate_recency_score c r i
                   + 0.15 * calculate_file_type_score r i
                   + 0.15 * calculate_filename_score r q
                   + 0.10 * calculate_access_score c r))"
  by (simp add: calculate_relevance_score_def weighted_sum_def score_breakdown_def
      ranking_weights_def algebra_simps)

lemma relevance_range:
  "0 \<le> calculate_relevance_score c r q i \<and> calculate_relevance_score c r q i \<le> 1"
  by (simp add: calculate_relevance_score_def)

subsection \<open>The best hit of every file\<close>

lemma keep_best_source:
  "map_of (keep_best rs all) p = Some h \<Longrightarrow>
     map_of all p = Some h \<or> (h \<in> set rs \<and> doc_file_path (hit_doc h) = p)"
proof (induction rs arbitrary: all)
  case Nil
  then show ?case by simp
next
  case (Cons r rs)
  define k where "k = doc_file_path (hit_doc r)"
  have upd: "map_of (AList.update k r all) p = Some h \<Longrightarrow>
      map_of all p = Some h \<or> (h = r \<and> k = p)"
    by (auto simp: update_conv' split: if_splits)
  show ?case
  proof (cases "keep_best (r # rs) all = keep_best rs all")
    case True
    with Cons.prems Cons.IH [of all] show ?thesis by auto
  next
    case False
    then have "keep_best (r # rs) all = keep_best rs (AList.update k r all)"
      by (auto simp: Let_def k_def split: option.splits if_splits)
    with Cons.prems Cons.IH [of "AList.update k r all"] upd show ?thesis
      by (auto simp: k_def)
  qed
qed

lemma keep_best_grows:
  "map_of all p = Some h0 \<Longrightarrow>
     \<exists>h. map_of (keep_best rs all) p = Some h \<and> similarity_score h0 \<le> similarity_score h"
proof (induction rs arbitrary: all h0)
  case Nil
  then show ?case by simp
next
  case (Cons r rs)
  define k where "k = doc_file_path (hit_doc r)"
  show ?case
  proof (cases "map_of all k")
    case None
    with Cons.prems have "p \<noteq> k" by auto
    with Cons.prems have "map_of (AList.update k r all) p = Some h0"
      by (simp add: update_conv')
    from Cons.IH [OF this] None show ?thesis
      by (simp add: Let_def k_def [symmetric])
  next
    case (Some best)
    show ?thesis
    proof (cases "similarity_score r > similarity_score best")
      case False
      with Some Cons.IH [OF Cons.prems] show ?thesis
        by (simp add: Let_def k_def [symmetric])
    next
      case True
      show ?thesis
      proof (cases "p = k")
        case False
        with Cons.prems have "map_of (AList.update k r all) p = Some h0"
          by (simp add: update_conv')
        from Cons.IH [OF this] Some True show ?thesis
          by (simp add: Let_def k_def [symmetric])
      next
        case pk: True
        with Some Cons.prems have h0: "h0 = best" by simp
        have "map_of (AList.update k r all) p = Some r"
          using pk by (simp add: update_conv')
        from Cons.IH [OF this] obtain h where
          "map_of (keep_best rs (AList.update k r all)) p = Some h"
          "similarity_score r \<le> similarity_score h" by blast
        with Some True h0 show ?thesis
          by (auto simp: Let_def k_def [symmetric])
      qed
    qed
  qed
qed

lemma keep_best_covers:
  "h' \<in> set rs \<Longrightarrow>
     \<exists>h. map_of (keep_best rs all) (doc_file_path (hit_doc h')) = Some h
        \<and> similarity_score h' \<le> similarity_score h"
proof (induction rs arbitrary: all)
  case Nil
  then show ?case by simp
next
  case (Cons r rs)
  define k where "k = doc_file_path (hit_doc r)"
  show ?case
  proof (cases "h' = r")
    case False
    with Cons.prems have "h' \<in> set rs" by simp
    from Cons.IH [OF this] show ?thesis
      by (auto simp: Let_def split: option.splits)
  next
    case True
    show ?thesis
    proof (cases "map_of all k")
      case None
      have "map_of (AList.update k r all) k = Some r" by (simp add: update_conv')
      from keep_best_grows [OF this, of rs] None True show ?thesis
        by (simp add: Let_def k_def [symmetric])
    next
      case (Some best)
      show ?thesis
      proof (cases "similarity_score r > similarity_score best")
        case gt: True
        have "map_of (AList.update k r all) k = Some r" by (simp add: update_conv')
        from keep_best_grows [OF this, of rs] Some True gt show ?thesis
          by (simp add: Let_def k_def [symmetric])
      next
        case False
        from keep_best_grows [OF Some, of rs] obtain h where
          "map_of (keep_best rs all) k = Some h" "similarity_score best \<le> similarity_score h"
          by blast
        with Some True False show ?thesis
          by (auto simp: Let_def k_def [symmetric])
      qed
    qed
  qed
qed

lemma keep_best_distinct:
  "distinct (map fst all) \<Longrightarrow> distinct (map fst (keep_best rs all))"
  by (induction rs arbitrary: all) (auto simp: Let_def distinct_update split: option.splits)

lemma fan_out_distinct:
  "distinct (map fst all) \<Longrightarrow> distinct (map fst (fan_out f qs k all))"
  by (induction qs arbitrary: all) (auto simp: keep_best_distinct)

lemma fan_out_source:
  "map_of (fan_out f qs k all) p = Some h \<Longrightarrow>
     map_of all p = Some h \<or> (\<exists>q \<in> set qs. h \<in> set (f q (k * 2)) \<and> doc_file_path (hit_doc h) = p)"
proof (induction qs arbitrary: all)
  case Nil
  then show ?case by simp
next
  case (Cons q qs)
  from Cons.prems have "map_of (fan_out f qs k (keep_best (f q (k * 2)) all)) p = Some h"
    by simp
  from Cons.IH [OF this] keep_best_source [of "f q (k * 2)" all p h]
  show ?case by auto
qed

lemma fan_out_grows:
  "map_of all p = Some h0 \<Longrightarrow>
     \<exists>h. map_of (fan_out f qs k all) p = Some h \<and> similarity_score h0 \<le> similarity_score h"
proof (induction qs arbitrary: all h0)
  case Nil
  then show ?case by simp
next
  case (Cons q qs)
  from keep_best_grows [OF Cons.prems, of "f q (k * 2)"] obtain h1 where
    h1: "map_of (keep_best (f q (k * 2)) all) p = Some h1"
    "similarity_score h0 \<le> similarity_score h1" by blast
  from Cons.IH [OF h1(1)] h1(2) show ?case by fastforce
qed

lemma fan_out_covers:
  "q \<in> set qs \<Longrightarrow> h' \<in> set (f q (k * 2)) \<Longrightarrow>
     \<exists>h. map_of (fan_out f qs k all) (doc_file_path (hit_doc h')) = Some h
        \<and> similarity_score h' \<le> similarity_score h"
proof (induction qs arbitrary: all)
  case Nil
  then show ?case by simp
next
  case (Cons q0 qs)
  show ?case
  proof (cases "q = q0")
    case True
    from keep_best_covers [of h' "f q0 (k * 2)" all] Cons.prems True obtain h1 where
      h1: "map_of (keep_best (f q0 (k * 2)) all) (doc_file_path (hit_doc h')) = Some h1"
      "similarity_score h' \<le> similarity_score h1" by blast
    from fan_out_grows [OF h1(1), of f qs k] h1(2) show ?thesis by fastforce
  next
    case False
    with Cons.prems have "q \<in> set qs" by simp
    from Cons.IH [OF this Cons.prems(2)] show ?thesis by simp
  qed
qed

lemma all_results_best:
  assumes "(p, result) \<in> set (all_results f query k)"
  shows "(\<exists>q \<in> set (expand_query query default_max_expansions).
            result \<in> set (f q (k * 2)) \<and> doc_file_path (hit_doc result) = p)"
    and "\<forall>q \<in> set (expand_query query default_max_expansions). \<forall>h \<in> set (f q (k * 2)).
            doc_file_path (hit_doc h) = p \<longrightarrow> similarity_score h \<le> similarity_score result"
proof -
  have "distinct (map fst (all_results f query k))"
    unfolding all_results_def by (rule fan_out_distinct) simp
  with assms have found: "map_of (all_results f query k) p = Some result"
    by simp
  from fan_out_source [OF found [unfolded all_results_def]]
  show "\<exists>q \<in> set (expand_query query default_max_expansions).
            result \<in> set (f q (k * 2)) \<and> doc_file_path (hit_doc result) = p"
    by simp
  show "\<forall>q \<in> set (expand_query query default_max_expansions). \<forall>h \<in> set (f q (k * 2)).
            doc_file_path (hit_doc h) = p \<longrightarrow> similarity_score h \<le> similarity_score result"
  proof (intro ballI impI)
    fix q h
    assume q: "q \<in> set (expand_query query default_max_expansions)"
      and h: "h \<in> set (f q (k * 2))"
      and p: "doc_file_path (hit_doc h) = p"
    from q h
      fan_out_covers [of q "expand_query query default_max_expansions" h f k "[]"]
    obtain h1 where "map_of (all_results f query k) (doc_file_path (hit_doc h)) = Some h1"
      "similarity_score h \<le> similarity_score h1"
      unfolding all_results_def by blast
    with p found show "similarity_score h \<le> similarity_score result"
      by simp
  qed
qed

text \<open>
  C4 (amended). For every file that the fan-out found, the semantic component is the raw
  similarity score of its best hit over all expansion queries (not rescaled, so it may
  be negative); the four other components lie in \<open>[0,1]\<close>; and the final relevance score
  is the weighted sum with the weights 0.40, 0.20, 0.15, 0.15 and 0.10, clamped to
  \<open>[0,1]\<close>.
\<close>

theorem relevance_score_components:
  assumes "(p, result) \<in> set (all_results f query k)"
  shows "semantic_similarity (score_breakdown c result query i) = similarity_score result
       \<and> (\<exists>q \<in> set (expand_query query default_max_expansions). result \<in> set (f q (k * 2)))
       \<and> (\<forall>q \<in> set (expand_query query default_max_expansions). \<forall>h \<in> set (f q (k * 2)).
            doc_file_path (hit_doc h) = p \<longrightarrow> similarity_score h \<le> similarity_score result)
       \<and> 0 \<le> recency (score_breakdown c result query i)
       \<and> recency (score_breakdown c result query i) \<le> 1
       \<and> 0 \<le> file_type_match (score_breakdown c result query i)
       \<and> file_type_match (score_breakdown c result query i) \<le> 1
       \<and> 0 \<le> filename_match (score_breakdown c result query i)
       \<and> filename_match (score_breakdown c result query i) \<le> 1
       \<and> 0 \<le> access_frequency (score_breakdown c result query i)
       \<and> access_frequency (score_breakdown c result query i) \<le> 1
       \<and> calculate_relevance_score c result query i =
           min 1 (max 0 (0.40 * semantic_similarity (score_breakdown c result query i)
                         + 0.20 * recency (score_breakdown c result query i)
                         + 0.15 * file_type_match (score_breakdown c result query i)
                         + 0.15 * filename_match (score_breakdown c result query i)
                         + 0.10 * access_frequency (score_breakdown c result query i)))
       \<and> 0 \<le> calculate_relevance_score c result query i
       \<and> calculate_relevance_score c result query i \<le> 1"
proof -
  have sem: "semantic_similarity (score_breakdown c result query i) = similarity_score result"
    by (simp add: score_breakdown_def)
  have best: "\<exists>q \<in> set (expand_query query default_max_expansions). result \<in> set (f q (k * 2))"
    using all_results_best(1) [OF assms] by blast
  have formula: "calculate_relevance_score c result query i =
           min 1 (max 0 (0.40 * semantic_similarity (score_breakdown c result query i)
                         + 0.20 * recency (score_breakdown c result query i)
                         + 0.15 * file_type_match (score_breakdown c result query i)
                         + 0.15 * filename_match (score_breakdown c result query i)
                         + 0.10 * access_frequency (score_breakdown c result query i)))"
    by (simp add: relevance_formula score_breakdown_def)
  have parts:
    "0 \<le> recency (score_breakdown c result query i)"
    "recency (score_breakdown c result query i) \<le> 1"
    "0 \<le> file_type_match (score_breakdown c result query i)"
    "file_type_match (score_breakdown c result query i) \<le> 1"
    "0 \<le> filename_match (score_breakdown c result query i)"
    "filename_match (score_breakdown c result query i) \<le> 1"
    "0 \<le> access_frequency (score_breakdown c result query i)"
    "access_frequency (score_breakdown c result query i) \<le> 1"
    using recency_range [of c result i] file_type_range [of result i]
      filename_range [of result query] access_range [of c result]
    by (simp_all add: score_breakdown_def)
  from sem best all_results_best(2) [OF assms] parts formula relevance_range [of c result query i]
  show ?thesis by blast
qed

theorem relevance_score_components_witness:
  "(''/d/a.txt'', hit_a) \<in> set (all_results search_ba ''cat dog'' 10)
   \<and> semantic_similarity (score_breakdown no_context hit_a ''cat dog'' (analyze_intent ''cat dog''))
       = 9 / 10
   \<and> hit_a \<in> set (search_ba ''cat'' 20)
   \<and> map similarity_score (search_ba ''cat dog'' 20) = [9 / 10, 3 / 10]
   \<and> calculate_relevance_score no_context hit_a ''cat dog'' (analyze_intent ''cat dog'')
       = 117 / 200"
proof -
  have found: "(''/d/a.txt'', hit_a) \<in> set (all_results search_ba ''cat dog'' 10)"
    by code_simp
  have sem: "similarity_score hit_a = 9 / 10"
    by (simp add: hit_a_def)
  have hits: "hit_a \<in> set (search_ba ''cat'' 20)"
    "map similarity_score (search_ba ''cat dog'' 20) = [9 / 10, 3 / 10]"
    by code_simp+
  have parts: "recency (score_breakdown no_context hit_a ''cat dog'' (analyze_intent ''cat dog'')) = 1 / 2"
    "file_type_match (score_breakdown no_context hit_a ''cat dog'' (analyze_intent ''cat dog'')) = 1 / 2"
    "filename_match (score_breakdown no_context hit_a ''cat dog'' (analyze_intent ''cat dog'')) = 0"
    "access_frequency (score_breakdown no_context hit_a ''cat dog'' (analyze_intent ''cat dog'')) = 1 / 2"
    by code_simp+
  from relevance_score_components [OF found, of no_context "analyze_intent ''cat dog''"]
  have "semantic_similarity (score_breakdown no_context hit_a ''cat dog'' (analyze_intent ''cat dog''))
       = 9 / 10
     \<and> calculate_relevance_score no_context hit_a ''cat dog'' (analyze_intent ''cat dog'')
       = 117 / 200"
    by (simp add: sem parts)
  with found hits show ?thesis by blast
qed

text \<open>
  The claim as stated fails for a file whose vector points away from the query: the
  semantic component is the inner product \<open>-1\<close> itself, below 0, where the rescaled
  score would be 0.
\<close>

theorem semantic_component_not_rescaled_counterexample:
  "(''/d/o.txt'', hit_o) \<in> set (all_results (search (demo_world disk_o) indexer_o) ''cat'' 10)
   \<and> similarity_score hit_o = - 1
   \<and> semantic_similarity (score_breakdown no_context hit_o ''cat'' (analyze_intent ''cat''))
       = - 1
   \<and> semantic_similarity (score_breakdown no_context hit_o ''cat'' (analyze_intent ''cat''))
       < 0
   \<and> semantic_similarity (score_breakdown no_context hit_o ''cat'' (analyze_intent ''cat''))
       \<noteq> (similarity_score hit_o + 1) / 2"
proof -
  have found: "(''/d/o.txt'', hit_o)
      \<in> set (all_results (search (demo_world disk_o) indexer_o) ''cat'' 10)"
    by code_simp
  have "similarity_score hit_o = - 1"
    by (simp add: hit_o_def)
  with found show ?thesis
    by (simp add: score_breakdown_def)
qed

subsection \<open>The filename signal\<close>

lemma length_filter_remdups:
  "length (filter P (remdups xs)) = card {x \<in> set xs. P x}"
proof -
  have "distinct (filter P (remdups xs))" by simp
  then have "card (set (filter P (remdups xs))) = length (filter P (remdups xs))"
    by (rule distinct_card)
  moreover have "set (filter P (remdups xs)) = {x \<in> set xs. P x}" by auto
  ultimately show ?thesis by simp
qed

text \<open>
  C7 (amended). Query and file name are lower-cased and cut into their \<open>\w+\<close> tokens.
  Without query tokens the signal is 0. If the two token sets overlap, it is the size of
  the overlap divided by the number of query tokens. Otherwise it is 0.5 for every query
  token that occurs inside the file name, divided by the number of query tokens, and
  clipped to 1.
\<close>

theorem calculate_filename_score_formula:
  "calculate_filename_score result query =
     (let query_tokens = set (findall_words (lower query));
          filename_tokens = set (findall_words (lower (doc_filename (hit_doc result))))
      in if query_tokens = {} then 0
         else if query_tokens \<inter> filename_tokens \<noteq> {}
         then real (card (query_tokens \<inter> filename_tokens)) / real (card query_tokens)
         else min 1 (0.5 * real (card {w \<in> query_tokens.
                                        contains (lower (doc_filename (hit_doc result))) w})
                     / real (card query_tokens)))"
proof -
  define qs where "qs = findall_words (lower query)"
  define fn where "fn = lower (doc_filename (hit_doc result))"
  define fs where "fs = findall_words fn"
  define ms where "ms = filter (\<lambda>w. w \<in> set (remdups fs)) (remdups qs)"
  have len_q: "real (length (remdups qs)) = real (card (set qs))"
    by (simp add: length_remdups_card_conv)
  have matches: "real (length ms) = real (card (set qs \<inter> set fs))"
    unfolding ms_def by (simp add: length_filter_remdups Int_def)
  have empty_iff: "ms = [] \<longleftrightarrow> set qs \<inter> set fs = {}"
    unfolding ms_def by (auto simp: filter_empty_conv)
  have partial: "partial_matches (remdups qs) fn 0 = 0.5 * real (card {w \<in> set qs. contains fn w})"
    by (simp add: partial_matches_count length_filter_remdups)
  have no_words: "remdups qs = [] \<longleftrightarrow> set qs = {}"
    by simp
  have code: "calculate_filename_score result query =
      (if remdups qs = [] then 0
       else if ms \<noteq> [] then real (length ms) / real (length (remdups qs))
       else min 1 (partial_matches (remdups qs) fn 0 / real (length (remdups qs))))"
    by (simp add: calculate_filename_score_def Let_def qs_def fn_def fs_def ms_def)
  show ?thesis
    unfolding code Let_def qs_def [symmetric] fn_def [symmetric] fs_def [symmetric]
    unfolding no_words empty_iff len_q matches partial
    by simp
qed

text \<open>
  The claim as stated fails for the query \<open>bud get\<close> and the file \<open>budget.txt\<close>: no token
  is shared, both query tokens occur in the file name, and the code returns
  \<open>(0.5 + 0.5) / 2\<close> where 0.5 per hit, clipped to 1, is 1.
\<close>

theorem filename_score_partial_counterexample:
  "doc_filename (hit_doc hit_budget) = ''budget.txt''
   \<and> calculate_filename_score hit_budget ''bud get'' = 1 / 2
   \<and> filename_score_as_specified ''budget.txt'' ''bud get'' = 1"
  by code_simp

section \<open>Order of the results\<close>

subsection \<open>The order in which the fan-out meets the paths\<close>

lemma set_first_met: "set (first_met xs) = set xs"
  by (induction xs) auto

lemma distinct_first_met: "distinct (first_met xs)"
  by (induction xs) (auto simp: set_first_met)

lemma first_met_append:
  "first_met (xs @ ys) = first_met xs @ filter (\<lambda>q. q \<notin> set xs) (first_met ys)"
proof (induction xs)
  case Nil
  then show ?case by simp
next
  case (Cons x xs)
  have "filter (\<lambda>y. y \<noteq> x) (filter (\<lambda>q. q \<notin> set xs) (first_met ys))
      = filter (\<lambda>q. q \<notin> set (x # xs)) (first_met ys)"
    by (auto intro: filter_cong)
  with Cons.IH show ?case by simp
qed

lemma keys_after_update:
  "(if p \<in> set ks then ks else ks @ [p])
     @ filter (\<lambda>q. q \<notin> set (if p \<in> set ks then ks else ks @ [p])) (first_met ps)
   = ks @ filter (\<lambda>q. q \<notin> set ks) (first_met (p # ps))"
proof (cases "p \<in> set ks")
  case True
  then have "filter (\<lambda>q. q \<notin> set ks) (filter (\<lambda>y. y \<noteq> p) (first_met ps))
      = filter (\<lambda>q. q \<notin> set ks) (first_met ps)"
    by (auto intro: filter_cong)
  with True show ?thesis by simp
next
  case False
  have "filter (\<lambda>q. q \<notin> set (ks @ [p])) (first_met ps)
      = filter (\<lambda>q. q \<notin> set ks) (filter (\<lambda>y. y \<noteq> p) (first_met ps))"
    by (auto intro: filter_cong)
  with False show ?thesis by simp
qed

lemma keep_best_keys:
  "map fst (keep_best rs all) =
     map fst all @ filter (\<lambda>q. q \<notin> set (map fst all))
                     (first_met (map (\<lambda>h. doc_file_path (hit_doc h)) rs))"
proof (induction rs arbitrary: all)
  case Nil
  then show ?case by simp
next
  case (Cons r rs)
  define p where "p = doc_file_path (hit_doc r)"
  define ks where "ks = map fst all"
  have known: "map_of all p = None \<longleftrightarrow> p \<notin> set ks"
    by (simp add: ks_def map_of_eq_None_iff)
  have updated: "map fst (AList.update p r all) = (if p \<in> set ks then ks else ks @ [p])"
    by (simp add: ks_def update_keys)
  obtain all1 where step: "keep_best (r # rs) all = keep_best rs all1"
    and keys1: "map fst all1 = (if p \<in> set ks then ks else ks @ [p])"
  proof (cases "map_of all p")
    case None
    then have "keep_best (r # rs) all = keep_best rs (AList.update p r all)"
      by (simp add: Let_def p_def)
    with updated that show ?thesis by blast
  next
    case (Some best)
    with known have "p \<in> set ks" by auto
    show ?thesis
    proof (cases "similarity_score r > similarity_score best")
      case True
      with Some have "keep_best (r # rs) all = keep_best rs (AList.update p r all)"
        by (simp add: Let_def p_def)
      with updated that show ?thesis by blast
    next
      case False
      with Some have "keep_best (r # rs) all = keep_best rs all"
        by (simp add: Let_def p_def)
      moreover have "map fst all = (if p \<in> set ks then ks else ks @ [p])"
        using \<open>p \<in> set ks\<close> by (simp add: ks_def)
      ultimately show ?thesis using that by blast
    qed
  qed
  have "map fst (keep_best (r # rs) all)
      = map fst all1 @ filter (\<lambda>q. q \<notin> set (map fst all1))
                         (first_met (map (\<lambda>h. doc_file_path (hit_doc h)) rs))"
    unfolding step by (rule Cons.IH)
  also have "\<dots> = ks @ filter (\<lambda>q. q \<notin> set ks)
                         (first_met (p # map (\<lambda>h. doc_file_path (hit_doc h)) rs))"
    unfolding keys1 by (rule keys_after_update)
  finally show ?case by (simp add: ks_def p_def)
qed

lemma fan_out_keys:
  "map fst (fan_out f qs k all) =
     map fst all @ filter (\<lambda>q. q \<notin> set (map fst all))
                     (first_met (concat (map (\<lambda>q. map (\<lambda>h. doc_file_path (hit_doc h)) (f q (k * 2))) qs)))"
proof (induction qs arbitrary: all)
  case Nil
  then show ?case by simp
next
  case (Cons q qs)
  define ks where "ks = map fst all"
  define xs where "xs = map (\<lambda>h. doc_file_path (hit_doc h)) (f q (k * 2))"
  define ys where "ys = concat (map (\<lambda>q. map (\<lambda>h. doc_file_path (hit_doc h)) (f q (k * 2))) qs)"
  define ks1 where "ks1 = ks @ filter (\<lambda>q. q \<notin> set ks) (first_met xs)"
  have keys1: "map fst (keep_best (f q (k * 2)) all) = ks1"
    by (simp add: keep_best_keys ks1_def ks_def xs_def)
  have "set ks1 = set ks \<union> set xs"
    by (auto simp: ks1_def set_first_met)
  then have "filter (\<lambda>q. q \<notin> set ks1) (first_met ys)
      = filter (\<lambda>q. q \<notin> set ks) (filter (\<lambda>q. q \<notin> set xs) (first_met ys))"
    by (auto intro: filter_cong)
  then have "ks1 @ filter (\<lambda>q. q \<notin> set ks1) (first_met ys)
      = ks @ filter (\<lambda>q. q \<notin> set ks) (first_met (xs @ ys))"
    by (simp add: ks1_def first_met_append)
  moreover have "map fst (fan_out f (q # qs) k all)
      = ks1 @ filter (\<lambda>q. q \<notin> set ks1) (first_met ys)"
    using Cons.IH [of "keep_best (f q (k * 2)) all"] by (simp add: keys1 ys_def)
  ultimately show ?case by (simp add: ks_def xs_def ys_def)
qed

lemma all_results_keys: "map fst (all_results f query k) = met_paths f query k"
  by (simp add: all_results_def met_paths_def fan_out_keys)

lemma enhanced_results_paths:
  "map sr_file_path (enhanced_results f c query k) = met_paths f query k"
proof -
  have "sr_file_path (enhance c query (analyze_intent query) (snd x)) = fst x"
    if "x \<in> set (all_results f query k)" for x
  proof -
    obtain p result where x: "x = (p, result)" by (cases x)
    with that all_results_best(1) [of p result f query k]
    have "doc_file_path (hit_doc result) = p" by blast
    with x show ?thesis by (simp add: enhance_def)
  qed
  then have "map sr_file_path (enhanced_results f c query k) = map fst (all_results f query k)"
    by (simp add: enhanced_results_def Let_def)
  then show ?thesis by (simp add: all_results_keys)
qed

subsection \<open>A stable sort keeps the first met first\<close>

lemma insort_key_sorted_wrt:
  fixes f :: "'a \<Rightarrow> 'b::linorder"
  assumes "sorted (map f xs)" and "sorted_wrt R xs"
    and "\<And>z. z \<in> set xs \<Longrightarrow> f x \<le> f z \<Longrightarrow> R x z"
    and "\<And>z. z \<in> set xs \<Longrightarrow> f z < f x \<Longrightarrow> R z x"
  shows "sorted_wrt R (insort_key f x xs)"
  using assms
proof (induction xs)
  case Nil
  then show ?case by simp
next
  case (Cons y ys)
  show ?case
  proof (cases "f x \<le> f y")
    case True
    have "R x z" if "z \<in> set (y # ys)" for z
    proof -
      from Cons.prems(1) that have "f y \<le> f z" by auto
      with True have "f x \<le> f z" by simp
      with that show ?thesis by (rule Cons.prems(3))
    qed
    with True Cons.prems(2) show ?thesis by simp
  next
    case False
    then have "f y < f x" by simp
    then have "R y x" by (simp add: Cons.prems(4))
    moreover have "sorted_wrt R (insort_key f x ys)"
      using Cons.prems by (intro Cons.IH) auto
    ultimately show ?thesis
      using False Cons.prems(2) by (auto simp: set_insort_key)
  qed
qed

lemma stable_sort_positions:
  fixes f :: "'a \<Rightarrow> 'b::linorder"
  assumes "distinct (map g xs)"
  shows "sorted_wrt (\<lambda>x y. f x < f y
                      \<or> (f x = f y \<and> position_of (map g xs) (g x) < position_of (map g xs) (g y)))
           (sort_key f xs)"
  using assms
proof (induction xs)
  case Nil
  then show ?case by simp
next
  case (Cons e es)
  define R where "R = (\<lambda>x y. f x < f y
      \<or> (f x = f y \<and> position_of (map g es) (g x) < position_of (map g es) (g y)))"
  define R' where "R' = (\<lambda>x y. f x < f y
      \<or> (f x = f y \<and> position_of (map g (e # es)) (g x) < position_of (map g (e # es)) (g y)))"
  from Cons.prems have "g e \<notin> g ` set es" by simp
  then have fresh: "g z \<noteq> g e" if "z \<in> set es" for z
    using that by (metis imageI)
  from Cons have "sorted_wrt R (sort_key f es)"
    by (simp add: R_def)
  moreover have "R' x y" if "x \<in> set (sort_key f es)" "y \<in> set (sort_key f es)" "R x y" for x y
    using that fresh by (auto simp: R_def R'_def)
  ultimately have "sorted_wrt R' (sort_key f es)"
    by (rule sorted_wrt_mono_rel [rotated])
  moreover have "sorted (map f (sort_key f es))"
    by (rule sorted_sort_key)
  moreover have "R' e z" if "z \<in> set (sort_key f es)" "f e \<le> f z" for z
    using that fresh by (auto simp: R'_def)
  moreover have "R' z e" if "z \<in> set (sort_key f es)" "f z < f e" for z
    using that by (simp add: R'_def)
  ultimately have "sorted_wrt R' (insort_key f e (sort_key f es))"
    by (intro insort_key_sorted_wrt)
  then show ?case by (simp add: R'_def)
qed

text \<open>
  C5 (amended). The results of a search are in descending order of the final relevance
  score, which is the ranker's score of the best hit of the path. Results of equal
  score stand in the order in which the fan-out over the expansion queries first met
  their paths: the sort is stable and compares nothing but the score. The result is a
  function of the inputs, so equal inputs give equal orderings.
\<close>

theorem engine_search_sorted_by_confidence:
  "sorted_wrt (ranked_before (met_paths f query k)) (engine_search f c query k)
   \<and> sorted_wrt (\<lambda>x y. confidence x \<ge> confidence y) (engine_search f c query k)
   \<and> map sr_file_path (enhanced_results f c query k) = met_paths f query k
   \<and> engine_search f c query k = slice_to k (sort_by_confidence (enhanced_results f c query k))
   \<and> (\<forall>r \<in> set (engine_search f c query k).
        \<exists>result. (sr_file_path r, result) \<in> set (all_results f query k)
          \<and> sr_similarity_score r = similarity_score result
          \<and> confidence r = calculate_relevance_score c result query (analyze_intent query))"
proof -
  define rs where "rs = enhanced_results f c query k"
  define met where "met = met_paths f query k"
  have paths: "map sr_file_path rs = met"
    unfolding rs_def met_def by (rule enhanced_results_paths)
  then have "distinct (map sr_file_path rs)"
    by (simp add: met_def met_paths_def distinct_first_met)
  from stable_sort_positions [OF this, of "\<lambda>r. - confidence r"]
  have "sorted_wrt (\<lambda>x y. - confidence x < - confidence y
      \<or> (- confidence x = - confidence y
          \<and> position_of met (sr_file_path x) < position_of met (sr_file_path y)))
      (sort_by_confidence rs)"
    by (simp add: sort_by_confidence_def paths)
  then have ranked: "sorted_wrt (ranked_before met) (sort_by_confidence rs)"
    by (rule sorted_wrt_mono_rel [rotated]) (auto simp: ranked_before_def)
  then have falling: "sorted_wrt (\<lambda>x y. confidence x \<ge> confidence y) (sort_by_confidence rs)"
    by (rule sorted_wrt_mono_rel [rotated]) (auto simp: ranked_before_def split: if_splits)
  have out: "engine_search f c query k = slice_to k (sort_by_confidence rs)"
    by (simp add: engine_search_def rs_def)
  have sliced: "sorted_wrt R (slice_to k xs)" if "sorted_wrt R xs" for R and xs :: "search_result list"
    using that by (simp add: slice_to_def sorted_wrt_take)
  have origin: "\<exists>result. (sr_file_path r, result) \<in> set (all_results f query k)
          \<and> sr_similarity_score r = similarity_score result
          \<and> confidence r = calculate_relevance_score c result query (analyze_intent query)"
    if "r \<in> set (engine_search f c query k)" for r
  proof -
    from that have "r \<in> set (sort_by_confidence rs)"
      unfolding out slice_to_def by (auto dest: in_set_takeD split: if_splits)
    then have "r \<in> set rs" by (simp add: sort_by_confidence_def)
    then obtain p result where found: "(p, result) \<in> set (all_results f query k)"
      and r: "r = enhance c query (analyze_intent query) result"
      by (auto simp: rs_def enhanced_results_def Let_def)
    from all_results_best(1) [OF found] have "doc_file_path (hit_doc result) = p" by blast
    with found r show ?thesis by (auto simp: enhance_def)
  qed
  have "sorted_wrt (ranked_before (met_paths f query k)) (engine_search f c query k)"
    using sliced [OF ranked] by (simp add: out met_def)
  moreover have "sorted_wrt (\<lambda>x y. confidence x \<ge> confidence y) (engine_search f c query k)"
    using sliced [OF falling] by (simp add: out)
  moreover have "map sr_file_path (enhanced_results f c query k) = met_paths f query k"
    using paths by (simp add: rs_def met_def)
  moreover have "engine_search f c query k
      = slice_to k (sort_by_confidence (enhanced_results f c query k))"
    by (simp add: engine_search_def)
  moreover have "\<forall>r \<in> set (engine_search f c query k).
        \<exists>result. (sr_file_path r, result) \<in> set (all_results f query k)
          \<and> sr_similarity_score r = similarity_score result
          \<and> confidence r = calculate_relevance_score c result query (analyze_intent query)"
    using origin by (intro ballI)
  ultimately show ?thesis by (intro conjI)
qed

theorem engine_search_sorted_by_confidence_witness:
  "met_paths search_ba ''cat dog'' 10 = [''/d/b.txt'', ''/d/a.txt'']
   \<and> map sr_file_path (engine_search search_ba no_context ''cat dog'' 10)
       = [''/d/b.txt'', ''/d/a.txt'']
   \<and> map confidence (engine_search search_ba no_context ''cat dog'' 10) = [117 / 200, 117 / 200]
   \<and> position_of (met_paths search_ba ''cat dog'' 10) ''/d/b.txt''
       < position_of (met_paths search_ba ''cat dog'' 10) ''/d/a.txt''"
proof -
  have met: "met_paths search_ba ''cat dog'' 10 = [''/d/b.txt'', ''/d/a.txt'']"
    by code_simp
  have paths: "map sr_file_path (engine_search search_ba no_context ''cat dog'' 10)
       = [''/d/b.txt'', ''/d/a.txt'']"
    and scores: "map confidence (engine_search search_ba no_context ''cat dog'' 10)
       = [117 / 200, 117 / 200]"
    by code_simp+
  from paths obtain x y where out: "engine_search search_ba no_context ''cat dog'' 10 = [x, y]"
    and x: "sr_file_path x = ''/d/b.txt''" and y: "sr_file_path y = ''/d/a.txt''"
    by (auto simp: map_eq_Cons_conv)
  from scores out have tie: "confidence x = confidence y" by simp
  from engine_search_sorted_by_confidence [of search_ba "''cat dog''" 10 no_context]
  have "ranked_before (met_paths search_ba ''cat dog'' 10) x y"
    by (simp add: out)
  with tie x y have "position_of (met_paths search_ba ''cat dog'' 10) ''/d/b.txt''
       < position_of (met_paths search_ba ''cat dog'' 10) ''/d/a.txt''"
    by (simp add: ranked_before_def)
  with met paths scores show ?thesis by blast
qed

text \<open>
  The claim as stated fails for two files of equal final and equal semantic score:
  \<open>/d/b.txt\<close> was met first and stays first, although \<open>/d/a.txt\<close> is the smaller path.
  (The two results have the same five components, so their scores are equal however
  the sum is rounded.)
\<close>

theorem engine_search_ties_counterexample:
  "map sr_file_path (engine_search search_ba no_context ''cat dog'' 10) = [''/d/b.txt'', ''/d/a.txt'']
   \<and> map confidence (engine_search search_ba no_context ''cat dog'' 10) = [117 / 200, 117 / 200]
   \<and> map sr_similarity_score (engine_search search_ba no_context ''cat dog'' 10) = [9 / 10, 9 / 10]
   \<and> string_less ''/d/a.txt'' ''/d/b.txt''
   \<and> \<not> ordered_as_specified (engine_search search_ba no_context ''cat dog'' 10)"
  by code_simp

section \<open>Change detection and repeated runs\<close>

lemma needs_reindexing_cong:
  assumes "map_of (file_records s') p = map_of (file_records s) p"
    and "disk w' = disk w" and "md5 w' = md5 w"
  shows "needs_reindexing w' s' p = needs_reindexing w s p"
  by (simp only: needs_reindexing_def assms)

lemma index_single_file_failure:
  assumes "\<not> indexable w (dim (faiss s)) p"
  shows "snd (index_single_file w s p) = False"
    and "file_records (fst (index_single_file w s p)) = file_records s"
    and "dim (faiss (fst (index_single_file w s p))) = dim (faiss s)"
proof -
  have "snd (index_single_file w s p) = False
      \<and> file_records (fst (index_single_file w s p)) = file_records s
      \<and> dim (faiss (fst (index_single_file w s p))) = dim (faiss s)"
  proof (cases "extract_content w p")
    case None
    then show ?thesis by (simp add: index_single_file_def)
  next
    case (Some content_data)
    note extracted = this
    show ?thesis
    proof (cases "create_embedding w (doc_content content_data)")
      case None
      with extracted show ?thesis by (simp add: index_single_file_def)
    next
      case (Some embedding)
      note embedded = this
      show ?thesis
      proof (cases "length embedding = dim (faiss s)")
        case False
        with extracted embedded show ?thesis
          by (simp add: index_single_file_def index_add_def)
      next
        case True
        with assms extracted embedded have "disk w p = None"
          by (simp add: indexable_def)
        with True extracted embedded show ?thesis
          by (simp add: index_single_file_def index_add_def Let_def)
      qed
    qed
  qed
  then show "snd (index_single_file w s p) = False"
    and "file_records (fst (index_single_file w s p)) = file_records s"
    and "dim (faiss (fst (index_single_file w s p))) = dim (faiss s)"
    by simp_all
qed

lemma index_single_file_success:
  assumes "indexable w (dim (faiss s)) p"
  shows "\<exists>entry stat. disk w p = Some stat
          \<and> size_bytes entry = st_size stat
          \<and> modified_time entry = st_mtime stat
          \<and> content_hash entry = calculate_file_hash (md5 w) (disk w) p default_sample_size
          \<and> snd (index_single_file w s p) = True
          \<and> file_records (fst (index_single_file w s p)) = AList.update p entry (file_records s)
          \<and> dim (faiss (fst (index_single_file w s p))) = dim (faiss s)"
proof -
  from assms obtain content_data where extracted: "extract_content w p = Some content_data"
    by (auto simp: indexable_def split: option.splits)
  with assms obtain embedding where
    embedded: "create_embedding w (doc_content content_data) = Some embedding"
    by (auto simp: indexable_def split: option.splits)
  with assms extracted have fits: "length embedding = dim (faiss s)"
    and "disk w p \<noteq> None"
    by (simp_all add: indexable_def)
  then obtain stat where stat: "disk w p = Some stat" by blast
  define s1 where "s1 = s\<lparr>faiss := (faiss s)\<lparr>stored := stored (faiss s) @ [embedding]\<rparr>\<rparr>"
  define slot where "slot = ntotal ((faiss s)\<lparr>stored := stored (faiss s) @ [embedding]\<rparr>) - 1"
  define entry where "entry = \<lparr>file_path = p,
       filename = path_name p,
       size_bytes = st_size stat,
       modified_time = st_mtime stat,
       content_hash = calculate_file_hash (md5 w) (disk w) p default_sample_size,
       indexed_time = now w,
       embedding_index = slot,
       content_preview = take 200 (doc_content content_data),
       category = (case doc_category content_data of None \<Rightarrow> ''unknown'' | Some c \<Rightarrow> c),
       word_count = (case doc_word_count content_data of None \<Rightarrow> 0 | Some n \<Rightarrow> n)\<rparr>"
  have "snd (index_single_file w s p) = True
      \<and> file_records (fst (index_single_file w s p)) = AList.update p entry (file_records s)
      \<and> dim (faiss (fst (index_single_file w s p))) = dim (faiss s)"
    using extracted embedded fits stat
    by (simp add: index_single_file_def index_add_def Let_def entry_def slot_def
        split: option.split)
  moreover have "size_bytes entry = st_size stat" "modified_time entry = st_mtime stat"
    "content_hash entry = calculate_file_hash (md5 w) (disk w) p default_sample_size"
    by (simp_all add: entry_def)
  ultimately show ?thesis using stat by blast
qed

lemma index_single_file_outcome:
  assumes "index_single_file w s p = (s', ok)"
  shows "ok = indexable w (dim (faiss s)) p" and "dim (faiss s') = dim (faiss s)"
proof -
  have "ok = indexable w (dim (faiss s)) p \<and> dim (faiss s') = dim (faiss s)"
  proof (cases "indexable w (dim (faiss s)) p")
    case True
    from index_single_file_success [OF True] assms True show ?thesis by auto
  next
    case False
    from index_single_file_failure [OF False] assms False show ?thesis by auto
  qed
  then show "ok = indexable w (dim (faiss s)) p" and "dim (faiss s') = dim (faiss s)"
    by simp_all
qed

lemma index_single_file_other_records:
  assumes "index_single_file w s p = (s', ok)" and "q \<noteq> p"
  shows "map_of (file_records s') q = map_of (file_records s) q"
proof (cases "indexable w (dim (faiss s)) p")
  case True
  from index_single_file_success [OF True] assms show ?thesis
    by (auto simp: update_conv')
next
  case False
  from index_single_file_failure [OF False] assms show ?thesis by auto
qed

lemma index_single_file_failure_records:
  assumes "index_single_file w s p = (s', False)"
  shows "map_of (file_records s') = map_of (file_records s)"
proof -
  from index_single_file_outcome(1) [OF assms] have "\<not> indexable w (dim (faiss s)) p"
    by simp
  from index_single_file_failure(2) [OF this] assms show ?thesis by simp
qed

lemma index_single_file_success_fresh:
  assumes "index_single_file w s p = (s', True)" and "disk w' = disk w" and "md5 w' = md5 w"
  shows "\<not> needs_reindexing w' s' p"
proof -
  from index_single_file_outcome(1) [OF assms(1)] have "indexable w (dim (faiss s)) p"
    by simp
  from index_single_file_success [OF this] assms(1) obtain entry stat where
    facts: "disk w p = Some stat" "size_bytes entry = st_size stat"
      "modified_time entry = st_mtime stat"
      "content_hash entry = calculate_file_hash (md5 w) (disk w) p default_sample_size"
      "file_records s' = AList.update p entry (file_records s)"
    by auto
  have "map_of (file_records s') p = Some entry"
    by (simp add: facts(5) update_conv')
  with facts(1-4) assms(2,3) show ?thesis
    by (simp add: needs_reindexing_def)
qed

lemma index_single_file_needs:
  assumes step: "index_single_file w s p = (s', ok)"
    and same: "disk w' = disk w" "md5 w' = md5 w"
  shows "needs_reindexing w' s' q =
           (if q = p \<and> indexable w (dim (faiss s)) p then False else needs_reindexing w s q)"
proof (cases "q = p")
  case False
  have "needs_reindexing w' s' q = needs_reindexing w s q"
    using index_single_file_other_records [OF step False] same
    by (rule needs_reindexing_cong)
  with False show ?thesis by simp
next
  case True
  have ok: "ok = indexable w (dim (faiss s)) p"
    by (rule index_single_file_outcome(1) [OF step])
  show ?thesis
  proof (cases ok)
    case yes: True
    with step have "index_single_file w s p = (s', True)" by simp
    then have "\<not> needs_reindexing w' s' p"
      using same by (rule index_single_file_success_fresh)
    with yes ok True show ?thesis by simp
  next
    case no: False
    with step have "index_single_file w s p = (s', False)" by simp
    then have "map_of (file_records s') = map_of (file_records s)"
      by (rule index_single_file_failure_records)
    then have "map_of (file_records s') q = map_of (file_records s) q" by simp
    then have "needs_reindexing w' s' q = needs_reindexing w s q"
      using same by (rule needs_reindexing_cong)
    with no ok show ?thesis by simp
  qed
qed

lemma process_files_dim:
  "process_files w s ps a b = (s', a', b') \<Longrightarrow> dim (faiss s') = dim (faiss s)"
proof (induction ps arbitrary: s a b)
  case Nil
  then show ?case by simp
next
  case (Cons p ps)
  obtain s1 ok where step: "index_single_file w s p = (s1, ok)"
    by (cases "index_single_file w s p")
  from Cons.prems step have "process_files w s1 ps (if ok then a + 1 else a)
      (if ok then b else b + 1) = (s', a', b')"
    by (cases ok) simp_all
  from Cons.IH [OF this] index_single_file_outcome(2) [OF step] show ?case by simp
qed

lemma process_files_tally:
  "process_files w s ps a b = (s', a', b') \<Longrightarrow> dim (faiss s) = d \<Longrightarrow>
     a' = a + int (length (filter (indexable w d) ps))
     \<and> b' = b + int (length (filter (\<lambda>p. \<not> indexable w d p) ps))"
proof (induction ps arbitrary: s a b)
  case Nil
  then show ?case by simp
next
  case (Cons p ps)
  obtain s1 ok where step: "index_single_file w s p = (s1, ok)"
    by (cases "index_single_file w s p")
  have ok: "ok = indexable w d p" and d1: "dim (faiss s1) = d"
    using index_single_file_outcome [OF step] Cons.prems(2) by simp_all
  show ?case
  proof (cases ok)
    case True
    with Cons.prems(1) step have "process_files w s1 ps (a + 1) b = (s', a', b')" by simp
    from Cons.IH [OF this d1] ok True show ?thesis by simp
  next
    case False
    with Cons.prems(1) step have "process_files w s1 ps a (b + 1) = (s', a', b')" by simp
    from Cons.IH [OF this d1] ok False show ?thesis by simp
  qed
qed

lemma process_files_needs:
  "process_files w s ps a b = (s', a', b') \<Longrightarrow> dim (faiss s) = d \<Longrightarrow>
   disk w' = disk w \<Longrightarrow> md5 w' = md5 w \<Longrightarrow>
     needs_reindexing w' s' q =
       (if q \<in> set ps \<and> indexable w d q then False else needs_reindexing w s q)"
proof (induction ps arbitrary: s a b)
  case Nil
  then have "s' = s" by simp
  then have "map_of (file_records s') q = map_of (file_records s) q" by simp
  then have "needs_reindexing w' s' q = needs_reindexing w s q"
    using Nil.prems(3,4) by (rule needs_reindexing_cong)
  then show ?case by simp
next
  case (Cons p ps)
  obtain s1 ok where step: "index_single_file w s p = (s1, ok)"
    by (cases "index_single_file w s p")
  have d1: "dim (faiss s1) = d"
    using index_single_file_outcome(2) [OF step] Cons.prems(2) by simp
  have first: "needs_reindexing w s1 q =
      (if q = p \<and> indexable w d p then False else needs_reindexing w s q)"
    using index_single_file_needs [OF step refl refl, of q] Cons.prems(2) by simp
  from Cons.prems(1) step have "process_files w s1 ps (if ok then a + 1 else a)
      (if ok then b else b + 1) = (s', a', b')"
    by (cases ok) simp_all
  from Cons.IH [OF this d1 Cons.prems(3,4)]
  have rest: "needs_reindexing w' s' q =
      (if q \<in> set ps \<and> indexable w d q then False else needs_reindexing w s1 q)" .
  show ?case
  proof (cases "q \<in> set ps \<and> indexable w d q")
    case True
    with rest show ?thesis by simp
  next
    case False
    with rest first show ?thesis by (cases "q = p") auto
  qed
qed

lemma indexable_cong:
  assumes "disk w' = disk w" "extract_content w' = extract_content w"
    "create_embedding w' = create_embedding w"
  shows "indexable w' d p = indexable w d p"
  by (simp only: indexable_def assms)

lemma incremental_index_total:
  "total_files (snd (incremental_index w s files)) = int (length files)"
  by (simp add: incremental_index_def Let_def split: prod.split)

lemma incremental_index_run:
  fixes w s0 files
  defines "d \<equiv> dim (faiss s0)"
  defines "todo \<equiv> filter (needs_reindexing w s0) files"
  assumes same: "disk w' = disk w" "md5 w' = md5 w"
  shows "dim (faiss (fst (incremental_index w s0 files))) = d"
    and "processed (snd (incremental_index w s0 files)) = int (length (filter (indexable w d) todo))"
    and "errors (snd (incremental_index w s0 files))
           = int (length (filter (\<lambda>p. \<not> indexable w d p) todo))"
    and "skipped (snd (incremental_index w s0 files)) = int (length files) - int (length todo)"
    and "needs_reindexing w' (fst (incremental_index w s0 files)) q =
           (if q \<in> set todo \<and> indexable w d q then False else needs_reindexing w s0 q)"
proof -
  have "dim (faiss (fst (incremental_index w s0 files))) = d
      \<and> processed (snd (incremental_index w s0 files)) = int (length (filter (indexable w d) todo))
      \<and> errors (snd (incremental_index w s0 files))
           = int (length (filter (\<lambda>p. \<not> indexable w d p) todo))
      \<and> skipped (snd (incremental_index w s0 files)) = int (length files) - int (length todo)
      \<and> needs_reindexing w' (fst (incremental_index w s0 files)) q =
           (if q \<in> set todo \<and> indexable w d q then False else needs_reindexing w s0 q)"
  proof (cases "todo = []")
    case True
    then have run: "incremental_index w s0 files =
        (s0, \<lparr>total_files = int (length files), processed = 0,
              skipped = int (length files), errors = 0\<rparr>)"
      by (simp add: incremental_index_def todo_def)
    have "needs_reindexing w' s0 q = needs_reindexing w s0 q"
      using refl same by (rule needs_reindexing_cong)
    with True run show ?thesis by (simp add: d_def)
  next
    case False
    obtain s1 a b where steps: "process_files w s0 todo 0 0 = (s1, a, b)"
      by (cases "process_files w s0 todo 0 0")
    with False have run: "incremental_index w s0 files =
        (s1, \<lparr>total_files = int (length files), processed = a,
              skipped = int (length files) - int (length todo), errors = b\<rparr>)"
      by (simp add: incremental_index_def todo_def)
    have "dim (faiss s1) = d"
      using process_files_dim [OF steps] by (simp add: d_def)
    moreover have "a = int (length (filter (indexable w d) todo))"
      and "b = int (length (filter (\<lambda>p. \<not> indexable w d p) todo))"
      using process_files_tally [OF steps, of d] by (simp_all add: d_def)
    moreover have "needs_reindexing w' s1 q =
           (if q \<in> set todo \<and> indexable w d q then False else needs_reindexing w s0 q)"
      using steps _ same by (rule process_files_needs) (simp add: d_def)
    ultimately show ?thesis using run by simp
  qed
  then show "dim (faiss (fst (incremental_index w s0 files))) = d"
    and "processed (snd (incremental_index w s0 files)) = int (length (filter (indexable w d) todo))"
    and "errors (snd (incremental_index w s0 files))
           = int (length (filter (\<lambda>p. \<not> indexable w d p) todo))"
    and "skipped (snd (incremental_index w s0 files)) = int (length files) - int (length todo)"
    and "needs_reindexing w' (fst (incremental_index w s0 files)) q =
           (if q \<in> set todo \<and> indexable w d q then False else needs_reindexing w s0 q)"
    by simp_all
qed

text \<open>
  C3 (amended). When the files, the extractor and the embedding model are the same in
  two consecutive runs over the same list, the second run indexes nothing:
  \<open>processed = 0\<close>. The files that the first run failed to index are tried and fail
  again, so the second run reports the errors of the first, and it skips all other
  files; every file is skipped when the first run had no error.
\<close>

theorem second_run_processes_nothing:
  assumes "disk w' = disk w" and "md5 w' = md5 w"
    and "extract_content w' = extract_content w" and "create_embedding w' = create_embedding w"
  shows "processed (snd (incremental_index w' (fst (incremental_index w s0 files)) files)) = 0
       \<and> errors (snd (incremental_index w' (fst (incremental_index w s0 files)) files))
           = errors (snd (incremental_index w s0 files))
       \<and> skipped (snd (incremental_index w' (fst (incremental_index w s0 files)) files))
           = int (length files) - errors (snd (incremental_index w s0 files))
       \<and> (errors (snd (incremental_index w s0 files)) = 0 \<longrightarrow>
            skipped (snd (incremental_index w' (fst (incremental_index w s0 files)) files))
              = total_files (snd (incremental_index w' (fst (incremental_index w s0 files)) files)))"
proof -
  define d where "d = dim (faiss s0)"
  define todo where "todo = filter (needs_reindexing w s0) files"
  define s1 where "s1 = fst (incremental_index w s0 files)"
  define failed where "failed = filter (\<lambda>p. \<not> indexable w d p) todo"
  note first = incremental_index_run [OF assms(1,2), of s0 files, folded d_def todo_def s1_def]
  have d1: "dim (faiss s1) = d" by (rule first(1))
  have errors1: "errors (snd (incremental_index w s0 files)) = int (length failed)"
    using first(3) by (simp add: failed_def)
  have "needs_reindexing w' s1 q = (needs_reindexing w s0 q \<and> \<not> indexable w d q)"
    if "q \<in> set files" for q
    using first(5) [of q] that by (auto simp: todo_def)
  then have "filter (needs_reindexing w' s1) files
      = filter (\<lambda>q. needs_reindexing w s0 q \<and> \<not> indexable w d q) files"
    by (intro filter_cong refl)
  then have todo2: "filter (needs_reindexing w' s1) files = failed"
    by (simp add: failed_def todo_def conj_commute)
  have same_indexable: "indexable w' d p = indexable w d p" for p
    using assms(1,3,4) by (rule indexable_cong)
  note second = incremental_index_run [OF refl refl, of w' s1 files, unfolded d1 todo2]
  have "filter (indexable w' d) failed = []"
    by (simp add: failed_def same_indexable filter_empty_conv)
  then have processed2: "processed (snd (incremental_index w' s1 files)) = 0"
    using second(2) by simp
  have "filter (\<lambda>p. \<not> indexable w' d p) failed = failed"
    by (simp add: failed_def same_indexable)
  then have errors2: "errors (snd (incremental_index w' s1 files)) = int (length failed)"
    using second(3) by simp
  have skipped2: "skipped (snd (incremental_index w' s1 files))
      = int (length files) - int (length failed)"
    by (rule second(4))
  have total2: "total_files (snd (incremental_index w' s1 files)) = int (length files)"
    using incremental_index_total [of w' s1 files] .
  from processed2 errors2 skipped2 total2 errors1 show ?thesis
    unfolding s1_def [symmetric] by simp
qed

theorem second_run_processes_nothing_witness:
  "snd (incremental_index (demo_world disk_bac) empty_indexer
          [''/d/b.txt'', ''/d/a.txt'', ''/d/c.png''])
     = \<lparr>total_files = 3, processed = 2, skipped = 0, errors = 1\<rparr>
   \<and> processed (snd (incremental_index (later (demo_world disk_bac))
        (fst (incremental_index (demo_world disk_bac) empty_indexer
               [''/d/b.txt'', ''/d/a.txt'', ''/d/c.png'']))
        [''/d/b.txt'', ''/d/a.txt'', ''/d/c.png''])) = 0
   \<and> errors (snd (incremental_index (later (demo_world disk_bac))
        (fst (incremental_index (demo_world disk_bac) empty_indexer
               [''/d/b.txt'', ''/d/a.txt'', ''/d/c.png'']))
        [''/d/b.txt'', ''/d/a.txt'', ''/d/c.png''])) = 1
   \<and> skipped (snd (incremental_index (later (demo_world disk_bac))
        (fst (incremental_index (demo_world disk_bac) empty_indexer
               [''/d/b.txt'', ''/d/a.txt'', ''/d/c.png'']))
        [''/d/b.txt'', ''/d/a.txt'', ''/d/c.png''])) = 2"
proof -
  have first: "snd (incremental_index (demo_world disk_bac) empty_indexer
          [''/d/b.txt'', ''/d/a.txt'', ''/d/c.png''])
     = \<lparr>total_files = 3, processed = 2, skipped = 0, errors = 1\<rparr>"
    by code_simp
  have same: "disk (later (demo_world disk_bac)) = disk (demo_world disk_bac)"
    "md5 (later (demo_world disk_bac)) = md5 (demo_world disk_bac)"
    "extract_content (later (demo_world disk_bac)) = extract_content (demo_world disk_bac)"
    "create_embedding (later (demo_world disk_bac)) = create_embedding (demo_world disk_bac)"
    by (simp_all add: later_def)
  from second_run_processes_nothing [OF same, of empty_indexer
      "[''/d/b.txt'', ''/d/a.txt'', ''/d/c.png'']"] first
  show ?thesis by simp
qed

text \<open>
  The claim as stated fails for a file that cannot be indexed: the picture has no
  record after the first run, so the second run tries it again and counts it as an
  error, not as skipped.
\<close>

theorem second_run_retries_failed_file_counterexample:
  "snd (incremental_index (demo_world disk_bac) empty_indexer [''/d/c.png''])
     = \<lparr>total_files = 1, processed = 0, skipped = 0, errors = 1\<rparr>
   \<and> snd (incremental_index (demo_world disk_bac)
        (fst (incremental_index (demo_world disk_bac) empty_indexer [''/d/c.png'']))
        [''/d/c.png''])
     = \<lparr>total_files = 1, processed = 0, skipped = 0, errors = 1\<rparr>"
  by code_simp

section \<open>Retired vectors\<close>

text \<open>
  C1. After \<open>/d/a.txt\<close> is rewritten and indexed again, the index holds two vectors for
  the path, the old one in slot 0 and the new one in slot 1, and nothing marks slot 0
  as retired. A search for \<open>cat\<close> meets slot 0 first (inner product 0.9 with the old
  content; the new vector has 0), and returns the file with the score of the old vector.
\<close>

theorem reindexed_file_keeps_old_vector:
  "snd (incremental_index (later (demo_world disk_a2)) indexer_a1 [''/d/a.txt''])
     = \<lparr>total_files = 1, processed = 1, skipped = 0, errors = 0\<rparr>
   \<and> stored (faiss indexer_a1) = [[3 / 10, 9 / 10]]
   \<and> stored (faiss indexer_a2) = [[3 / 10, 9 / 10], [9 / 10, 0]]
   \<and> map (\<lambda>(p, entry). (p, embedding_index entry)) (file_records indexer_a2) = [(''/d/a.txt'', 1)]
   \<and> map (\<lambda>d. (doc_file_path d, doc_content d)) (documents indexer_a2) = [(''/d/a.txt'', ''beta'')]
   \<and> create_embedding (later (demo_world disk_a2)) ''cat'' = Some [0, 1]
   \<and> index_search (faiss indexer_a2) [0, 1] 2 = [(9 / 10, 0), (0, 1)]
   \<and> map (\<lambda>h. (doc_file_path (hit_doc h), doc_content (hit_doc h), similarity_score h))
        (search (later (demo_world disk_a2)) indexer_a2 ''cat'' 10)
       = [(''/d/a.txt'', ''beta'', 9 / 10)]"
  by code_simp

text \<open>
  C2. After \<open>/d/b.txt\<close> is deleted and the index is cleaned, the count 1 is returned, the
  record and the document of the file are gone, and no search returns its path. Its
  vector stays in slot 0 and still takes part in every search: a search for
  \<open>cat dog\<close> meets slot 0 first (inner product 0.9) and returns \<open>/d/a.txt\<close>, whose own
  vector in slot 1 has 0.3, with the score 0.9 of the deleted file.
\<close>

theorem cleanup_keeps_deleted_vector:
  "snd (cleanup_deleted_files (demo_world disk_a1) indexer_ba) = 1
   \<and> map fst (file_records indexer_ba) = [''/d/b.txt'', ''/d/a.txt'']
   \<and> map (\<lambda>(p, entry). (p, embedding_index entry)) (file_records indexer_cleaned)
       = [(''/d/a.txt'', 1)]
   \<and> map doc_file_path (documents indexer_cleaned) = [''/d/a.txt'']
   \<and> stored (faiss indexer_cleaned) = [[9 / 10, 0], [3 / 10, 9 / 10]]
   \<and> create_embedding (demo_world disk_a1) ''cat dog'' = Some [1, 0]
   \<and> index_search (faiss indexer_cleaned) [1, 0] 2 = [(9 / 10, 0), (3 / 10, 1)]
   \<and> map (\<lambda>h. (doc_file_path (hit_doc h), similarity_score h))
        (search (demo_world disk_a1) indexer_cleaned ''cat dog'' 10)
       = [(''/d/a.txt'', 9 / 10)]"
  by code_simp

subsection \<open>What indexing and cleaning do to the index in general\<close>

text \<open>
  Indexing a file only ever adds a vector at the end, and cleaning does not touch the
  vectors at all: the state has no place where a slot could be marked as retired.
\<close>

lemma index_single_file_appends:
  "\<exists>vs. stored (faiss (fst (index_single_file w s p))) = stored (faiss s) @ vs"
proof (cases "extract_content w p")
  case None
  then show ?thesis by (simp add: index_single_file_def)
next
  case (Some content_data)
  note extracted = this
  show ?thesis
  proof (cases "create_embedding w (doc_content content_data)")
    case None
    with extracted show ?thesis by (simp add: index_single_file_def)
  next
    case (Some embedding)
    note embedded = this
    show ?thesis
    proof (cases "length embedding = dim (faiss s)")
      case False
      with extracted embedded show ?thesis
        by (simp add: index_single_file_def index_add_def)
    next
      case True
      with extracted embedded show ?thesis
        by (simp add: index_single_file_def index_add_def Let_def split: option.split)
    qed
  qed
qed

lemma cleanup_keeps_vectors:
  "faiss (fst (cleanup_deleted_files w s)) = faiss s"
  by (simp add: cleanup_deleted_files_def Let_def split: prod.split)

lemma remove_records_filter:
  "remove_records ps records n =
     (filter (\<lambda>(p, entry). p \<notin> set ps) records, n + int (length ps))"
proof (induction ps arbitrary: records n)
  case Nil
  then show ?case by simp
next
  case (Cons p ps)
  have "filter (\<lambda>(q, entry). q \<notin> set ps) (AList.delete p records)
      = filter (\<lambda>(q, entry). q \<notin> set (p # ps)) records"
    by (induction records) (auto simp: AList.delete_eq)
  with Cons.IH [of "AList.delete p records" "n + 1"] show ?case by simp
qed

text \<open>
  The parts of the cleanup that hold for every index: the count is the number of records
  whose file is gone, the number of records falls by it, the records of the files that
  exist stay as they are, and every later hit is a file that exists.
\<close>

lemma cleanup_removes_missing_records:
  fixes w s
  defines "s' \<equiv> fst (cleanup_deleted_files w s)"
  defines "n \<equiv> snd (cleanup_deleted_files w s)"
  shows "n = int (length (filter (\<lambda>(p, entry). \<not> path_exists (disk w) p) (file_records s)))"
    and "int (length (file_records s')) = int (length (file_records s)) - n"
    and "file_records s' = filter (\<lambda>(p, entry). path_exists (disk w) p) (file_records s)"
    and "h \<in> set (search w s' query k) \<Longrightarrow> path_exists (disk w) (doc_file_path (hit_doc h))"
proof -
  define gone where "gone = filter (\<lambda>(p, entry). \<not> path_exists (disk w) p) (file_records s)"
  have kept: "filter (\<lambda>(p, entry). p \<notin> set (map fst gone)) (file_records s)
      = filter (\<lambda>(p, entry). path_exists (disk w) p) (file_records s)"
    by (rule filter_cong) (force simp: gone_def)+
  have run: "cleanup_deleted_files w s =
      (s\<lparr>file_records := filter (\<lambda>(p, entry). path_exists (disk w) p) (file_records s),
         documents := filter (\<lambda>doc. path_exists (disk w) (doc_file_path doc)) (documents s)\<rparr>,
       int (length gone))"
    using kept
    by (simp add: cleanup_deleted_files_def Let_def remove_records_filter
        gone_def [symmetric])
  show count: "n = int (length (filter (\<lambda>(p, entry). \<not> path_exists (disk w) p) (file_records s)))"
    by (simp add: n_def run gone_def)
  show records: "file_records s' = filter (\<lambda>(p, entry). path_exists (disk w) p) (file_records s)"
    by (simp add: s'_def run)
  have "length (filter (\<lambda>(p, entry). path_exists (disk w) p) (file_records s)) + length gone
      = length (file_records s)"
    using sum_length_filter_compl [of "\<lambda>x. path_exists (disk w) (fst x)" "file_records s"]
    by (simp add: gone_def case_prod_unfold)
  then show "int (length (file_records s')) = int (length (file_records s)) - n"
    by (simp add: records n_def run)
  have docs: "documents s' = filter (\<lambda>doc. path_exists (disk w) (doc_file_path doc)) (documents s)"
    by (simp add: s'_def run)
  have hits: "h \<in> set (collect_hits s' found) \<Longrightarrow>
      path_exists (disk w) (doc_file_path (hit_doc h))" for found
  proof (induction found)
    case Nil
    then show ?case by simp
  next
    case (Cons x found)
    obtain score idx where x: "x = (score, idx)" by (cases x)
    show ?case
    proof (cases "h \<in> set (collect_hits s' found)")
      case True
      then show ?thesis by (rule Cons.IH)
    next
      case False
      with Cons.prems x have idx: "idx < length (documents s')" and h: "h = make_hit s' score idx"
        by (auto split: if_splits)
      from idx have "documents s' ! idx \<in> set (documents s')" by simp
      then have "path_exists (disk w) (doc_file_path (documents s' ! idx))"
        by (simp add: docs)
      then show ?thesis
        by (simp add: h make_hit_def Let_def split: option.split)
    qed
  qed
  show "path_exists (disk w) (doc_file_path (hit_doc h))" if "h \<in> set (search w s' query k)"
    using that hits
    by (auto simp: search_def Let_def split: if_splits option.splits)
qed

section \<open>Unreadable files and recorded hashes\<close>

lemma startswith_append: "startswith (xs @ ys) xs"
  by (induction xs) simp_all

lemma hash_error_is_no_digest: "startswith (hash_error e) ''error_''"
  unfolding hash_error_def by (rule startswith_append)

lemma calculate_file_hash_unreadable:
  assumes "fs p = Some f" and "open_error f = Some e"
  shows "calculate_file_hash h fs p S = hash_error e"
  using assms by (simp add: calculate_file_hash_def open_rb_def)

lemma calculate_file_hash_readable:
  assumes "fs p = Some f" and "open_error f = None" and "0 \<le> S"
  shows "\<exists>bs. calculate_file_hash h fs p S = h bs"
proof -
  have opened: "open_rb fs p = Inr \<lparr>h_data = file_bytes f, h_pos = 0\<rparr>"
    using assms(1,2) by (simp add: open_rb_def)
  have "\<not> S div 3 < - 1" "S div 3 \<noteq> - 1"
    using assms(3) pos_imp_zdiv_nonneg_iff [of 3 S] by simp_all
  then show ?thesis
    by (auto simp add: calculate_file_hash_def opened f_read_def Let_def)
qed

lemma list_all_update:
  "list_all P al \<Longrightarrow> P (k, v) \<Longrightarrow> list_all P (AList.update k v al)"
  by (induction al) auto

text \<open>
  When the extractor delivers only files that can be read, and no digest begins with
  \<open>error_\<close> (a hexadecimal MD5 digest never does), indexing and cleaning write nothing
  but digests into the records.
\<close>

lemma index_single_file_keeps_digests:
  assumes "hashes_are_digests s"
    and sound: "\<And>q. extract_content w q \<noteq> None \<Longrightarrow> \<exists>f. disk w q = Some f \<and> open_error f = None"
    and hex: "\<And>bs. \<not> startswith (md5 w bs) ''error_''"
  shows "hashes_are_digests (fst (index_single_file w s p))"
proof (cases "indexable w (dim (faiss s)) p")
  case False
  from index_single_file_failure(2) [OF False] assms(1) show ?thesis
    by (simp add: hashes_are_digests_def)
next
  case True
  then have "extract_content w p \<noteq> None"
    by (auto simp: indexable_def split: option.splits)
  from sound [OF this] obtain f where on_disk: "disk w p = Some f" "open_error f = None"
    by blast
  then obtain bs where
    "calculate_file_hash (md5 w) (disk w) p default_sample_size = md5 w bs"
    using calculate_file_hash_readable [of "disk w" p f default_sample_size "md5 w"]
    by (auto simp: default_sample_size_def)
  with hex have digest:
    "\<not> startswith (calculate_file_hash (md5 w) (disk w) p default_sample_size) ''error_''"
    by simp
  from index_single_file_success [OF True] obtain entry where
    "content_hash entry = calculate_file_hash (md5 w) (disk w) p default_sample_size"
    "file_records (fst (index_single_file w s p)) = AList.update p entry (file_records s)"
    by blast
  with digest assms(1) show ?thesis
    by (simp add: hashes_are_digests_def list_all_update)
qed

lemma process_files_keeps_digests:
  assumes "hashes_are_digests s"
    and sound: "\<And>q. extract_content w q \<noteq> None \<Longrightarrow> \<exists>f. disk w q = Some f \<and> open_error f = None"
    and hex: "\<And>bs. \<not> startswith (md5 w bs) ''error_''"
  shows "hashes_are_digests (fst (process_files w s ps a b))"
  using assms(1)
proof (induction ps arbitrary: s a b)
  case Nil
  then show ?case by simp
next
  case (Cons p ps)
  obtain s1 ok where step: "index_single_file w s p = (s1, ok)"
    by (cases "index_single_file w s p")
  from index_single_file_keeps_digests [OF Cons.prems sound hex, of p] step
  have "hashes_are_digests s1" by simp
  from Cons.IH [OF this] step show ?case
    by (cases ok) simp_all
qed

lemma incremental_index_keeps_digests:
  assumes "hashes_are_digests s"
    and sound: "\<And>q. extract_content w q \<noteq> None \<Longrightarrow> \<exists>f. disk w q = Some f \<and> open_error f = None"
    and hex: "\<And>bs. \<not> startswith (md5 w bs) ''error_''"
  shows "hashes_are_digests (fst (incremental_index w s files))"
proof (cases "filter (needs_reindexing w s) files = []")
  case True
  with assms(1) show ?thesis by (simp add: incremental_index_def)
next
  case False
  obtain s1 a b where run: "process_files w s (filter (needs_reindexing w s) files) 0 0 = (s1, a, b)"
    by (cases "process_files w s (filter (needs_reindexing w s) files) 0 0")
  from process_files_keeps_digests [OF assms(1) sound hex,
      of "filter (needs_reindexing w s) files" 0 0] run
  have "hashes_are_digests s1" by simp
  with False run show ?thesis
    by (simp add: incremental_index_def Let_def)
qed

lemma cleanup_keeps_digests:
  assumes "hashes_are_digests s"
  shows "hashes_are_digests (fst (cleanup_deleted_files w s))"
  using assms cleanup_removes_missing_records(3) [of w s]
  by (simp add: hashes_are_digests_def list_all_iff)

lemma empty_index_has_digests:
  "file_records s = [] \<Longrightarrow> hashes_are_digests s"
  by (simp add: hashes_are_digests_def)

text \<open>
  C6. A path is unchanged (\<open>needs_reindexing\<close> is false) if and only if it has a record,
  its size is the recorded size, its modification time is not later than the recorded
  one, and its content hash is the recorded hash. A path without a record needs
  indexing. An I/O error during the inspection makes the path need indexing: a file
  that cannot be examined, and, in an index whose recorded hashes are digests, a file
  that cannot be opened for hashing.
\<close>

theorem needs_reindexing_unchanged_iff:
  "(\<not> needs_reindexing w s p \<longleftrightarrow>
      (\<exists>entry stat. map_of (file_records s) p = Some entry \<and> disk w p = Some stat
         \<and> st_size stat = size_bytes entry
         \<and> st_mtime stat \<le> modified_time entry
         \<and> calculate_file_hash (md5 w) (disk w) p default_sample_size = content_hash entry))
   \<and> (map_of (file_records s) p = None \<longrightarrow> needs_reindexing w s p)
   \<and> (disk w p = None \<longrightarrow> needs_reindexing w s p)
   \<and> (hashes_are_digests s \<longrightarrow>
        (\<forall>stat e. disk w p = Some stat \<and> open_error stat = Some e \<longrightarrow> needs_reindexing w s p))"
proof -
  have new: "needs_reindexing w s p" if "map_of (file_records s) p = None"
    using that by (simp add: needs_reindexing_def)
  have gone: "needs_reindexing w s p" if "disk w p = None"
    using that by (simp add: needs_reindexing_def split: option.split)
  have known: "needs_reindexing w s p \<longleftrightarrow>
      \<not> (st_size stat = size_bytes entry \<and> st_mtime stat \<le> modified_time entry
         \<and> calculate_file_hash (md5 w) (disk w) p default_sample_size = content_hash entry)"
    if "map_of (file_records s) p = Some entry" "disk w p = Some stat" for entry stat
    using that by (auto simp: needs_reindexing_def)
  have unchanged: "\<not> needs_reindexing w s p \<longleftrightarrow>
      (\<exists>entry stat. map_of (file_records s) p = Some entry \<and> disk w p = Some stat
         \<and> st_size stat = size_bytes entry
         \<and> st_mtime stat \<le> modified_time entry
         \<and> calculate_file_hash (md5 w) (disk w) p default_sample_size = content_hash entry)"
  proof (cases "map_of (file_records s) p")
    case None
    with new show ?thesis by simp
  next
    case (Some entry)
    show ?thesis
    proof (cases "disk w p")
      case None
      with gone show ?thesis by simp
    next
      case (Some stat)
      with \<open>map_of (file_records s) p = Some entry\<close> known [of entry stat]
      show ?thesis by auto
    qed
  qed
  have unreadable: "needs_reindexing w s p"
    if digests: "hashes_are_digests s"
      and on_disk: "disk w p = Some stat" "open_error stat = Some e"
    for stat e
  proof (cases "map_of (file_records s) p")
    case None
    then show ?thesis by (rule new)
  next
    case (Some entry)
    then have "(p, entry) \<in> set (file_records s)" by (rule map_of_SomeD)
    with digests have "\<not> startswith (content_hash entry) ''error_''"
      by (auto simp: hashes_are_digests_def list_all_iff)
    moreover have "calculate_file_hash (md5 w) (disk w) p default_sample_size = hash_error e"
      using on_disk by (rule calculate_file_hash_unreadable)
    ultimately have "calculate_file_hash (md5 w) (disk w) p default_sample_size
        \<noteq> content_hash entry"
      using hash_error_is_no_digest [of e] by auto
    with known [OF Some on_disk(1)] show ?thesis by simp
  qed
  from unchanged new gone unreadable show ?thesis by blast
qed

theorem needs_reindexing_unchanged_iff_witness:
  "\<not> needs_reindexing (demo_world disk_ba) indexer_ba ''/d/a.txt''
   \<and> map_of (file_records indexer_ba) ''/d/new.txt'' = None
   \<and> needs_reindexing (demo_world disk_ba) indexer_ba ''/d/new.txt''
   \<and> disk (demo_world disk_a1) ''/d/b.txt'' = None
   \<and> needs_reindexing (demo_world disk_a1) indexer_ba ''/d/b.txt''
   \<and> hashes_are_digests indexer_ba
   \<and> open_rb (disk (demo_world disk_locked)) ''/d/a.txt'' = Inl ''[Errno 13] Permission denied''
   \<and> needs_reindexing (demo_world disk_locked) indexer_ba ''/d/a.txt''"
proof -
  have entry: "map_of (file_records indexer_ba) ''/d/a.txt'' =
      Some \<lparr>file_path = ''/d/a.txt'', filename = ''a.txt'', size_bytes = 5,
         modified_time = 1, content_hash = ''md5:alpha'', indexed_time = 100,
         embedding_index = 1, content_preview = ''alpha'', category = ''text'',
         word_count = 1\<rparr>"
    by code_simp
  have stat: "disk (demo_world disk_ba) ''/d/a.txt'' = Some (text_file ''alpha'' 1)"
    by (simp add: demo_world_def disk_ba_def)
  have hash: "calculate_file_hash (md5 (demo_world disk_ba)) (disk (demo_world disk_ba))
      ''/d/a.txt'' default_sample_size = ''md5:alpha''"
    by code_simp
  have no_entry: "map_of (file_records indexer_ba) ''/d/new.txt'' = None"
    by code_simp
  have no_file: "disk (demo_world disk_a1) ''/d/b.txt'' = None"
    by (simp add: demo_world_def disk_a1_def)
  have digests: "hashes_are_digests indexer_ba"
    by code_simp
  have locked: "disk (demo_world disk_locked) ''/d/a.txt'' =
      Some \<lparr>file_bytes = ''alpha'', st_mtime = 1, open_error = Some ''[Errno 13] Permission denied''\<rparr>"
    by (simp add: demo_world_def disk_locked_def)
  have refused: "open_rb (disk (demo_world disk_locked)) ''/d/a.txt''
      = Inl ''[Errno 13] Permission denied''"
    by (simp add: open_rb_def locked)
  have "\<not> needs_reindexing (demo_world disk_ba) indexer_ba ''/d/a.txt''"
    using needs_reindexing_unchanged_iff [of "demo_world disk_ba" indexer_ba "''/d/a.txt''"]
    by (simp add: entry stat hash st_size_def text_file_def)
  moreover have "needs_reindexing (demo_world disk_ba) indexer_ba ''/d/new.txt''"
    using needs_reindexing_unchanged_iff [of "demo_world disk_ba" indexer_ba "''/d/new.txt''"]
      no_entry by blast
  moreover have "needs_reindexing (demo_world disk_a1) indexer_ba ''/d/b.txt''"
    using needs_reindexing_unchanged_iff [of "demo_world disk_a1" indexer_ba "''/d/b.txt''"]
      no_file by blast
  moreover have "needs_reindexing (demo_world disk_locked) indexer_ba ''/d/a.txt''"
    using needs_reindexing_unchanged_iff [of "demo_world disk_locked" indexer_ba "''/d/a.txt''"]
      digests locked by simp
  ultimately show ?thesis using no_entry no_file digests refused by blast
qed

end
